theory Spec2Isabelle
  imports Main "HOL-Library.Multiset"
begin

section \<open>RangeMap: the data structure of RangeMap.h\<close>

text \<open>
  \<^verbatim>\<open>template <typename T> class RangeMap\<close> keeps two parallel vectors, the breakpoint
  table \<open>Tab\<close> and the table of active sets \<open>IList\<close>, and a constant empty vector
  \<open>Empty\<close>. The element type \<open>T\<close> is only ever compared (\<open><\<close>, \<open>>\<close>, \<open>>=\<close>,
  \<open>==\<close>, \<open>!=\<close>), so it is modelled by any linear order \<open>'a\<close>; the two constants
  \<open>MINV\<close> and \<open>MAXV\<close> that \<open>Build\<close> takes from \<^verbatim>\<open>std::numeric_limits<T>\<close> are
  parameters of the model (for \<^verbatim>\<open>int\<close>: \<open>- 2 ^ 31\<close> and \<open>2 ^ 31 - 1\<close>; for
  \<^verbatim>\<open>double\<close>: the two infinities, and the values that are not numbers, which no order
  holds, are left out). Indices (\<^verbatim>\<open>size_t\<close>) are natural numbers: \<open>NF * 2 + 2\<close> does
  not wrap around for arrays that fit in memory. An array is the list of its elements;
  \<open>Build\<close> reads \<open>S[i]\<close> and \<open>E[i]\<close> for \<open>i < N\<close> only, and the theorems about it take
  \<open>N\<close> to be at most the two lengths.
\<close>

record 'a RangeMap =
  Tab :: "'a list"
  IList :: "nat list list"

definition Empty :: "nat list" where
  "Empty = []"

text \<open>A default-constructed instance: both tables are empty.\<close>

definition fresh :: "'a RangeMap" where
  "fresh = \<lparr>Tab = [], IList = []\<rparr>"

text \<open>
  A failed \<^verbatim>\<open>assert\<close> aborts the program; an index outside a vector is undefined
  behaviour. Both are results of the model.
\<close>

datatype error = CapacityAssert | TabAssert | IListAssert | OutOfBounds

text \<open>
  \<^verbatim>\<open>#define PUSHBACK(X, Y) assert(X.capacity() > X.size()); X.push_back(Y)\<close>.
  The capacity is the amount the preceding \<^verbatim>\<open>reserve\<close> asked for, the least a
  vector may have after it.
\<close>

definition PUSHBACK :: "nat \<Rightarrow> 'b list \<Rightarrow> 'b \<Rightarrow> error + 'b list" where
  "PUSHBACK cap X Y = (if cap > length X then Inr (X @ [Y]) else Inl CapacityAssert)"

subsection \<open>Build\<close>

text \<open>
  The first loop of \<open>Build\<close>: the indices \<open>i < N\<close> with \<open>S[i] != E[i]\<close>, appended to
  \<open>SS\<close> and to \<open>SE\<close> (both reserved for \<open>N\<close> entries).
\<close>

function filter_loop ::
  "'a list \<Rightarrow> 'a list \<Rightarrow> nat \<Rightarrow> nat \<Rightarrow> nat list \<Rightarrow> nat list \<Rightarrow> error + (nat list \<times> nat list)"
where
  "filter_loop S E N i SS SE =
     (if i < N then
        (if S ! i \<noteq> E ! i then
           (case PUSHBACK N SS i of
              Inl e \<Rightarrow> Inl e
            | Inr SS' \<Rightarrow>
                (case PUSHBACK N SE i of
                   Inl e \<Rightarrow> Inl e
                 | Inr SE' \<Rightarrow> filter_loop S E N (i + 1) SS' SE'))
         else filter_loop S E N (i + 1) SS SE)
      else Inr (SS, SE))"
  by pat_completeness auto
termination
  by (relation "measure (\<lambda>(S, E, N, i, SS, SE). N - i)") auto

declare filter_loop.simps [simp del]

text \<open>
  \<^verbatim>\<open>while ((i1 < NF) && (S[SS[i1]] == v)) AS.insert(SS[i1++]);\<close> and
  \<^verbatim>\<open>while ((i2 < NF) && (E[SE[i2]] == v)) AS.erase(SE[i2++]);\<close>.
  The active set \<^verbatim>\<open>std::set<size_t> AS\<close> is a set of natural numbers.
\<close>

function open_loop :: "'a list \<Rightarrow> nat list \<Rightarrow> nat \<Rightarrow> 'a \<Rightarrow> nat \<Rightarrow> nat set \<Rightarrow> nat \<times> nat set" where
  "open_loop S SS NF v i1 AS =
     (if i1 < NF \<and> S ! (SS ! i1) = v then open_loop S SS NF v (i1 + 1) (insert (SS ! i1) AS)
      else (i1, AS))"
  by pat_completeness auto
termination
  by (relation "measure (\<lambda>(S, SS, NF, v, i1, AS). NF - i1)") auto

declare open_loop.simps [simp del]

function close_loop :: "'a list \<Rightarrow> nat list \<Rightarrow> nat \<Rightarrow> 'a \<Rightarrow> nat \<Rightarrow> nat set \<Rightarrow> nat \<times> nat set" where
  "close_loop E SE NF v i2 AS =
     (if i2 < NF \<and> E ! (SE ! i2) = v then close_loop E SE NF v (i2 + 1) (AS - {SE ! i2})
      else (i2, AS))"
  by pat_completeness auto
termination
  by (relation "measure (\<lambda>(E, SE, NF, v, i2, AS). NF - i2)") auto

declare close_loop.simps [simp del]

lemma open_loop_mono: "open_loop S SS NF v i1 AS = (j, A) \<Longrightarrow> i1 \<le> j"
  by (induction S SS NF v i1 AS rule: open_loop.induct)
     (subst (asm) open_loop.simps, auto split: if_splits)

lemma close_loop_mono: "close_loop E SE NF v i2 AS = (j, A) \<Longrightarrow> i2 \<le> j"
  by (induction E SE NF v i2 AS rule: close_loop.induct)
     (subst (asm) close_loop.simps, auto split: if_splits)

lemma open_loop_step:
  "i1 < NF \<Longrightarrow> S ! (SS ! i1) = v \<Longrightarrow> open_loop S SS NF v i1 AS = (j, A) \<Longrightarrow> i1 < j"
  using open_loop_mono [of S SS NF v "i1 + 1" "insert (SS ! i1) AS" j A]
  by (subst (asm) open_loop.simps) simp

lemma close_loop_step:
  "i2 < NF \<Longrightarrow> E ! (SE ! i2) = v \<Longrightarrow> close_loop E SE NF v i2 AS = (j, A) \<Longrightarrow> i2 < j"
  using close_loop_mono [of E SE NF v "i2 + 1" "AS - {SE ! i2}" j A]
  by (subst (asm) close_loop.simps) simp

text \<open>The value the sweep merges next: the smaller of the pending start and end.\<close>

definition next_value :: "'a::linorder list \<Rightarrow> 'a list \<Rightarrow> nat list \<Rightarrow> nat list \<Rightarrow> nat \<Rightarrow> nat \<Rightarrow> nat \<Rightarrow> 'a" where
  "next_value S E SS SE NF i1 i2 =
     (if i1 \<ge> NF \<or> (i2 < NF \<and> S ! (SS ! i1) \<ge> E ! (SE ! i2)) then E ! (SE ! i2)
      else S ! (SS ! i1))"

text \<open>
  One table entry: \<^verbatim>\<open>PUSHBACK(Tab, v); PUSHBACK(IList, A);\<close> with both vectors
  reserved for \<open>cap\<close> entries.
\<close>

definition push_entry ::
  "nat \<Rightarrow> 'a list \<Rightarrow> nat list list \<Rightarrow> 'a \<Rightarrow> nat list \<Rightarrow> error + ('a list \<times> nat list list)"
where
  "push_entry cap T IL v A =
     (case PUSHBACK cap T v of
        Inl e \<Rightarrow> Inl e
      | Inr T' \<Rightarrow>
          (case PUSHBACK cap IL A of
             Inl e \<Rightarrow> Inl e
           | Inr IL' \<Rightarrow> Inr (T', IL')))"

text \<open>
  The main loop \<^verbatim>\<open>while ((i1 < NF) || (i2 < NF))\<close>, with its two appends and its two
  assertions. The snapshot \<^verbatim>\<open>std::vector<size_t>(AS.begin(), AS.end())\<close> lists the
  set in ascending order.
\<close>

function sweep ::
  "'a::linorder list \<Rightarrow> 'a list \<Rightarrow> nat list \<Rightarrow> nat list \<Rightarrow> nat \<Rightarrow> nat \<Rightarrow> nat \<Rightarrow> nat set \<Rightarrow>
   'a list \<Rightarrow> nat list list \<Rightarrow> error + ('a list \<times> nat list list)"
where
  "sweep S E SS SE NF i1 i2 AS T IL =
     (if i1 < NF \<or> i2 < NF then
        (let v = next_value S E SS SE NF i1 i2;
             (i1', AS1) = open_loop S SS NF v i1 AS;
             (i2', AS2) = close_loop E SE NF v i2 AS1
         in case push_entry (NF * 2 + 2) T IL v (sorted_list_of_set AS2) of
              Inl e \<Rightarrow> Inl e
            | Inr (T', IL') \<Rightarrow>
                if \<not> (length T' < 2 \<or> T' ! (length T' - 1) \<noteq> T' ! (length T' - 2))
                then Inl TabAssert
                else if \<not> (length IL' < 2 \<or> IL' ! (length IL' - 1) \<noteq> IL' ! (length IL' - 2))
                then Inl IListAssert
                else sweep S E SS SE NF i1' i2' AS2 T' IL')
      else Inr (T, IL))"
  by pat_completeness auto
termination
proof (relation "measure (\<lambda>(S, E, SS, SE, NF, i1, i2, AS, T, IL). (NF - i1) + (NF - i2))", goal_cases)
  case 1
  show ?case by simp
next
  case (2 S E SS SE NF i1 i2 AS T IL v p i1' AS1 q i2' AS2 r T' IL')
  have o: "open_loop S SS NF v i1 AS = (i1', AS1)"
    using 2 by simp
  have c: "close_loop E SE NF v i2 AS1 = (i2', AS2)"
    using 2 by simp
  have m1: "i1 \<le> i1'" using open_loop_mono [OF o] .
  have m2: "i2 \<le> i2'" using close_loop_mono [OF c] .
  have "(i1 < NF \<and> S ! (SS ! i1) = v) \<or> (i2 < NF \<and> E ! (SE ! i2) = v)"
    using 2(1,2) by (auto simp: next_value_def split: if_splits)
  then have "(i1 < NF \<and> i1 < i1') \<or> (i2 < NF \<and> i2 < i2')"
    using open_loop_step [OF _ _ o] close_loop_step [OF _ _ c] by blast
  then show ?case
    using m1 m2 by auto
qed

declare sweep.simps [simp del]

text \<open>
  \<open>Build\<close> from the line \<^verbatim>\<open>Tab.clear()\<close> on, given the two argsorted index
  vectors: both tables start empty, the entry for \<open>MINV\<close>, the sweep, the entry for
  \<open>MAXV\<close>.
\<close>

definition Build_tables ::
  "'a::linorder \<Rightarrow> 'a \<Rightarrow> 'a list \<Rightarrow> 'a list \<Rightarrow> nat list \<Rightarrow> nat list \<Rightarrow> error + 'a RangeMap"
where
  "Build_tables MINV MAXV S E SS SE =
     (let NF = length SS in
      case (if 0 = NF \<or> S ! (SS ! 0) > MINV then push_entry (NF * 2 + 2) [] [] MINV Empty
            else Inr ([], [])) of
        Inl e \<Rightarrow> Inl e
      | Inr (T0, IL0) \<Rightarrow>
          (case sweep S E SS SE NF 0 0 {} T0 IL0 of
             Inl e \<Rightarrow> Inl e
           | Inr (T1, IL1) \<Rightarrow>
               if 0 = NF \<or> E ! (SE ! (NF - 1)) < MAXV then
                 (case push_entry (NF * 2 + 2) T1 IL1 MAXV Empty of
                    Inl e \<Rightarrow> Inl e
                  | Inr (T2, IL2) \<Rightarrow> Inr \<lparr>Tab = T2, IList = IL2\<rparr>)
               else Inr \<lparr>Tab = T1, IList = IL1\<rparr>))"

text \<open>
  \<open>Build(S, E, N)\<close>. A null pointer is \<open>None\<close>. \<^verbatim>\<open>std::sort\<close> with the comparator
  \<^verbatim>\<open>S[i1] < S[i2]\<close> returns some permutation that is ordered by the key and leaves
  the order of equal keys open; the model takes the stable one, \<open>sort_key\<close>, and
  \<open>Build_tables\<close> is shown below to return the same tables for every other.
\<close>

definition Build ::
  "'a::linorder \<Rightarrow> 'a \<Rightarrow> 'a RangeMap \<Rightarrow> 'a list option \<Rightarrow> 'a list option \<Rightarrow> nat \<Rightarrow> error + 'a RangeMap"
where
  "Build MINV MAXV rm S E N =
     (case (S, E) of
        (Some S', Some E') \<Rightarrow>
          if N = 0 then Inr rm
          else
            (case filter_loop S' E' N 0 [] [] of
               Inl e \<Rightarrow> Inl e
             | Inr (SS, SE) \<Rightarrow>
                 Build_tables MINV MAXV S' E'
                   (sort_key (\<lambda>i. S' ! i) SS) (sort_key (\<lambda>i. E' ! i) SE))
      | _ \<Rightarrow> Inr rm)"

subsection \<open>Query\<close>

text \<open>
  \<^verbatim>\<open>std::lower_bound(Tab.begin(), Tab.end(), p)\<close>: the position of the first element
  that is not less than \<open>p\<close>, the length of the table when there is none.
\<close>

fun lower_bound :: "'a::linorder list \<Rightarrow> 'a \<Rightarrow> nat" where
  "lower_bound [] p = 0"
| "lower_bound (x # xs) p = (if x < p then Suc (lower_bound xs p) else 0)"

text \<open>
  \<^verbatim>\<open>return (It != Tab.end()) ? IList[(It - Tab.begin()) - (*It > p)] : Empty;\<close>
  The index \<open>0 - 1\<close> and an index past the end of \<open>IList\<close> are out of bounds.
\<close>

definition Query :: "'a::linorder RangeMap \<Rightarrow> 'a \<Rightarrow> error + nat list" where
  "Query rm p =
     (let It = lower_bound (Tab rm) p in
      if It \<noteq> length (Tab rm) then
        (if Tab rm ! It > p \<and> It = 0 then Inl OutOfBounds
         else
           (let x = It - (if Tab rm ! It > p then 1 else 0) in
            if x < length (IList rm) then Inr (IList rm ! x) else Inl OutOfBounds))
      else Inr Empty)"

text \<open>
  The brute-force reference of the test program (\<open>SlowCheck\<close> in RMTest.cpp): the
  indices \<open>i < N\<close> with \<open>S[i] <= x < E[i]\<close>, in ascending order.
\<close>

definition SlowCheck :: "'a::linorder \<Rightarrow> 'a list \<Rightarrow> 'a list \<Rightarrow> nat \<Rightarrow> nat list" where
  "SlowCheck x S E N = filter (\<lambda>i. S ! i \<le> x \<and> x < E ! i) [0..<N]"

text \<open>
  The call sequence of the test program and of the README:
  \<^verbatim>\<open>rm.Build(S, E, N); ... rm.Query(p)\<close>.
\<close>

definition Build_Query ::
  "'a::linorder \<Rightarrow> 'a \<Rightarrow> 'a RangeMap \<Rightarrow> 'a list option \<Rightarrow> 'a list option \<Rightarrow> nat \<Rightarrow> 'a \<Rightarrow> error + nat list"
where
  "Build_Query MINV MAXV rm S E N p =
     (case Build MINV MAXV rm S E N of Inl e \<Rightarrow> Inl e | Inr rm' \<Rightarrow> Query rm' p)"

text \<open>The limits of \<^verbatim>\<open>int\<close> (32 bits), for \<^verbatim>\<open>RangeMap<int>\<close>.\<close>

definition INT_MIN :: int where
  "INT_MIN = - 2147483648"

definition INT_MAX :: int where
  "INT_MAX = 2147483647"

text \<open>The indices that the first loop of \<open>Build\<close> keeps: the non-degenerate intervals.\<close>

definition nondegen :: "'a list \<Rightarrow> 'a list \<Rightarrow> nat \<Rightarrow> nat list" where
  "nondegen S E N = filter (\<lambda>i. S ! i \<noteq> E ! i) [0..<N]"

section \<open>Predicates of the verification\<close>

text \<open>
  A sequence of \<open>Build\<close> calls on one instance, each with its two pointers and its
  count; \<open>call_ok\<close> says that the arrays of a call hold at least \<open>N\<close> elements.
\<close>

type_synonym 'a call = "'a list option \<times> 'a list option \<times> nat"

fun Builds :: "'a::linorder \<Rightarrow> 'a \<Rightarrow> 'a RangeMap \<Rightarrow> 'a call list \<Rightarrow> error + 'a RangeMap" where
  "Builds MINV MAXV rm [] = Inr rm"
| "Builds MINV MAXV rm ((S, E, N) # cs) =
     (case Build MINV MAXV rm S E N of
        Inl e \<Rightarrow> Inl e
      | Inr rm' \<Rightarrow> Builds MINV MAXV rm' cs)"

fun call_ok :: "'a call \<Rightarrow> bool" where
  "call_ok (Some S, Some E, N) = (N \<le> length S \<and> N \<le> length E)"
| "call_ok (S, E, N) = True"

text \<open>
  \<open>front T y\<close>: the sweep has passed the value \<open>y\<close>, that is, the table is not empty and
  its last breakpoint is at or above \<open>y\<close>.
\<close>

definition front :: "'a::linorder list \<Rightarrow> 'a \<Rightarrow> bool" where
  "front T y \<longleftrightarrow> T \<noteq> [] \<and> y \<le> last T"

text \<open>The intervals of the index set \<open>F\<close> that contain the point \<open>v\<close> (half-open).\<close>

definition stab :: "'a::linorder list \<Rightarrow> 'a list \<Rightarrow> nat set \<Rightarrow> 'a \<Rightarrow> nat set" where
  "stab S E F v = {x \<in> F. S ! x \<le> v \<and> v < E ! x}"

text \<open>No start and no end of an interval of \<open>F\<close> lies strictly between \<open>a\<close> and \<open>b\<close>.\<close>

definition gapfree :: "'a::linorder list \<Rightarrow> 'a list \<Rightarrow> nat set \<Rightarrow> 'a \<Rightarrow> 'a \<Rightarrow> bool" where
  "gapfree S E F a b \<longleftrightarrow> (\<forall>x\<in>F. \<not> (a < S ! x \<and> S ! x < b) \<and> \<not> (a < E ! x \<and> E ! x < b))"

text \<open>
  The two tables are parallel, the breakpoints increase strictly, each entry lists the
  intervals that contain its breakpoint, and no interval starts or ends strictly between
  two neighbouring breakpoints.
\<close>

definition table_ok :: "'a::linorder list \<Rightarrow> 'a list \<Rightarrow> nat set \<Rightarrow> 'a list \<Rightarrow> nat list list \<Rightarrow> bool" where
  "table_ok S E F T IL \<longleftrightarrow>
     length IL = length T \<and> sorted_wrt (<) T \<and>
     (\<forall>k<length T. IL ! k = sorted_list_of_set (stab S E F (T ! k))) \<and>
     (\<forall>k. Suc k < length T \<longrightarrow> gapfree S E F (T ! k) (T ! Suc k))"

text \<open>
  What the sweep is given on well-formed input: two argsorted vectors of the same
  indices, every interval non-empty (\<open>start < end\<close>) and no end above \<open>U\<close>.
\<close>

definition sweep_ctx :: "'a::linorder list \<Rightarrow> 'a list \<Rightarrow> nat list \<Rightarrow> nat list \<Rightarrow> 'a \<Rightarrow> bool" where
  "sweep_ctx S E SS SE U \<longleftrightarrow>
     length SE = length SS \<and> set SE = set SS \<and>
     sorted (map (\<lambda>i. S ! i) SS) \<and> sorted (map (\<lambda>i. E ! i) SE) \<and>
     (\<forall>x\<in>set SS. S ! x < E ! x \<and> E ! x \<le> U)"

text \<open>The invariant of the main loop on well-formed input.\<close>

definition sweep_inv ::
  "'a::linorder list \<Rightarrow> 'a list \<Rightarrow> nat list \<Rightarrow> nat list \<Rightarrow> 'a \<Rightarrow> nat \<Rightarrow> nat \<Rightarrow> nat set \<Rightarrow>
   'a list \<Rightarrow> nat list list \<Rightarrow> bool"
where
  "sweep_inv S E SS SE U i1 i2 AS T IL \<longleftrightarrow>
     i1 \<le> length SS \<and> i2 \<le> length SS \<and> table_ok S E (set SS) T IL \<and>
     (\<forall>x\<in>set (take i1 SS). front T (S ! x)) \<and> (\<forall>x\<in>set (drop i1 SS). \<not> front T (S ! x)) \<and>
     (\<forall>x\<in>set (take i2 SE). front T (E ! x)) \<and> (\<forall>x\<in>set (drop i2 SE). \<not> front T (E ! x)) \<and>
     AS = {x \<in> set SS. front T (S ! x) \<and> \<not> front T (E ! x)} \<and>
     length T + (length SS - i1) + (length SS - i2) \<le> 2 * length SS + 1 \<and>
     (\<forall>t\<in>set T. t \<le> U)"

text \<open>The invariant of the main loop on any input, and what it gives at the exit.\<close>

definition gen_inv ::
  "'a::linorder \<Rightarrow> 'a list \<Rightarrow> nat list \<Rightarrow> nat \<Rightarrow> nat \<Rightarrow> nat set \<Rightarrow> 'a list \<Rightarrow> nat list list \<Rightarrow> bool"
where
  "gen_inv MINV S SS i1 i2 AS T IL \<longleftrightarrow>
     i1 \<le> length SS \<and> i2 \<le> length SS \<and> length IL = length T \<and>
     length T + (length SS - i1) + (length SS - i2) \<le> 2 * length SS + 1 \<and>
     finite AS \<and> AS \<subseteq> set SS \<and>
     (\<forall>A\<in>set IL. sorted_wrt (<) A \<and> set A \<subseteq> set SS) \<and>
     (\<forall>k. 0 < k \<and> k < length IL \<longrightarrow> IL ! k \<noteq> IL ! (k - 1)) \<and>
     (T = [] \<longrightarrow> i1 = 0 \<and> 0 < length SS \<and> S ! (SS ! 0) \<le> MINV) \<and>
     (T \<noteq> [] \<longrightarrow> hd T \<le> MINV)"

definition gen_post ::
  "'a::linorder \<Rightarrow> nat list \<Rightarrow> error + ('a list \<times> nat list list) \<Rightarrow> bool"
where
  "gen_post MINV SS r \<longleftrightarrow>
     r \<noteq> Inl CapacityAssert \<and>
     (\<forall>T' IL'. r = Inr (T', IL') \<longrightarrow>
        length IL' = length T' \<and> length T' \<le> 2 * length SS + 1 \<and>
        (\<forall>A\<in>set IL'. sorted_wrt (<) A \<and> set A \<subseteq> set SS) \<and>
        (\<forall>k. 0 < k \<and> k < length IL' \<longrightarrow> IL' ! k \<noteq> IL' ! (k - 1)) \<and>
        T' \<noteq> [] \<and> hd T' \<le> MINV)"

text \<open>
  What every instance satisfies after any number of \<open>Build\<close> calls: parallel tables, a
  first breakpoint at or below \<open>MINV\<close>, and ascending entries.
\<close>

definition built_inv :: "'a::linorder \<Rightarrow> 'a RangeMap \<Rightarrow> bool" where
  "built_inv MINV rm \<longleftrightarrow>
     length (IList rm) = length (Tab rm) \<and> (Tab rm \<noteq> [] \<longrightarrow> hd (Tab rm) \<le> MINV) \<and>
     (\<forall>A\<in>set (IList rm). sorted_wrt (<) A)"

section \<open>The loops in closed form\<close>

lemma push_entry_eq:
  "push_entry cap T IL v A =
     (if length T < cap \<and> length IL < cap then Inr (T @ [v], IL @ [A]) else Inl CapacityAssert)"
  by (simp add: push_entry_def PUSHBACK_def)

lemma filter_loop_eq:
  "i \<le> N \<Longrightarrow> length SS \<le> i \<Longrightarrow> length SE \<le> i \<Longrightarrow>
   filter_loop S E N i SS SE =
     Inr (SS @ filter (\<lambda>j. S ! j \<noteq> E ! j) [i..<N], SE @ filter (\<lambda>j. S ! j \<noteq> E ! j) [i..<N])"
proof (induction S E N i SS SE rule: filter_loop.induct)
  case (1 S E N i SS SE)
  show ?case
  proof (cases "i < N")
    case True
    then have up: "[i..<N] = i # [i + 1..<N]"
      by (simp add: upt_conv_Cons)
    show ?thesis
    proof (cases "S ! i \<noteq> E ! i")
      case ne: True
      have p1: "PUSHBACK N SS i = Inr (SS @ [i])" and p2: "PUSHBACK N SE i = Inr (SE @ [i])"
        using True "1.prems" by (simp_all add: PUSHBACK_def)
      have "filter_loop S E N (i + 1) (SS @ [i]) (SE @ [i]) =
            Inr ((SS @ [i]) @ filter (\<lambda>j. S ! j \<noteq> E ! j) [i + 1..<N],
                 (SE @ [i]) @ filter (\<lambda>j. S ! j \<noteq> E ! j) [i + 1..<N])"
        using "1.IH"(1) [OF True ne p1 p2] True "1.prems" by simp
      then show ?thesis
        using True ne p1 p2 up by (subst filter_loop.simps) simp
    next
      case eq: False
      have "filter_loop S E N (i + 1) SS SE =
            Inr (SS @ filter (\<lambda>j. S ! j \<noteq> E ! j) [i + 1..<N],
                 SE @ filter (\<lambda>j. S ! j \<noteq> E ! j) [i + 1..<N])"
        using "1.IH"(2) [OF True eq] True "1.prems" by simp
      then show ?thesis
        using True eq up by (subst filter_loop.simps) simp
    qed
  next
    case False
    with "1.prems" show ?thesis
      by (subst filter_loop.simps) simp
  qed
qed

lemma filter_loop_nondegen:
  "filter_loop S E N 0 [] [] = Inr (nondegen S E N, nondegen S E N)"
  using filter_loop_eq [of 0 N "[]" "[]" S E] by (simp add: nondegen_def)

lemma open_loop_eq:
  "open_loop S SS (length SS) v i1 AS =
     (i1 + length (takeWhile (\<lambda>x. S ! x = v) (drop i1 SS)),
      AS \<union> set (takeWhile (\<lambda>x. S ! x = v) (drop i1 SS)))"
proof (induction S SS "length SS" v i1 AS rule: open_loop.induct)
  case (1 S SS v i1 AS)
  show ?case
  proof (cases "i1 < length SS \<and> S ! (SS ! i1) = v")
    case True
    then have d: "drop i1 SS = SS ! i1 # drop (i1 + 1) SS"
      by (simp add: Cons_nth_drop_Suc)
    show ?thesis
      using True "1.hyps" [OF True] by (subst open_loop.simps) (simp add: d)
  next
    case False
    then have "takeWhile (\<lambda>x. S ! x = v) (drop i1 SS) = []"
      by (cases "i1 < length SS") (simp_all add: Cons_nth_drop_Suc [symmetric] hd_drop_conv_nth takeWhile_eq_Nil_iff)
    with False show ?thesis
      by (subst open_loop.simps) auto
  qed
qed

lemma close_loop_eq:
  "close_loop E SE (length SE) v i2 AS =
     (i2 + length (takeWhile (\<lambda>x. E ! x = v) (drop i2 SE)),
      AS - set (takeWhile (\<lambda>x. E ! x = v) (drop i2 SE)))"
proof (induction E SE "length SE" v i2 AS rule: close_loop.induct)
  case (1 E SE v i2 AS)
  show ?case
  proof (cases "i2 < length SE \<and> E ! (SE ! i2) = v")
    case True
    then have d: "drop i2 SE = SE ! i2 # drop (i2 + 1) SE"
      by (simp add: Cons_nth_drop_Suc)
    show ?thesis
      using True "1.hyps" [OF True] by (subst close_loop.simps) (auto simp add: d)
  next
    case False
    then have "takeWhile (\<lambda>x. E ! x = v) (drop i2 SE) = []"
      by (cases "i2 < length SE") (simp_all add: Cons_nth_drop_Suc [symmetric] hd_drop_conv_nth takeWhile_eq_Nil_iff)
    with False show ?thesis
      by (subst close_loop.simps) auto
  qed
qed


lemma snoc_assert_Tab:
  "(length (T @ [v]) < 2 \<or> (T @ [v]) ! (length (T @ [v]) - 1) \<noteq> (T @ [v]) ! (length (T @ [v]) - 2))
     \<longleftrightarrow> (T = [] \<or> last T \<noteq> v)"
  by (cases T rule: rev_cases) (auto simp: nth_append)


lemma sweep_unfold:
  assumes "i1 < length SS \<or> i2 < length SS" and "length SE = length SS"
  shows "sweep S E SS SE (length SS) i1 i2 AS T IL =
     (let v = next_value S E SS SE (length SS) i1 i2;
          O1 = takeWhile (\<lambda>x. S ! x = v) (drop i1 SS);
          C1 = takeWhile (\<lambda>x. E ! x = v) (drop i2 SE);
          AS2 = (AS \<union> set O1) - set C1
      in if length T < length SS * 2 + 2 \<and> length IL < length SS * 2 + 2 then
           if T \<noteq> [] \<and> last T = v then Inl TabAssert
           else if IL \<noteq> [] \<and> last IL = sorted_list_of_set AS2 then Inl IListAssert
           else sweep S E SS SE (length SS) (i1 + length O1) (i2 + length C1) AS2
                  (T @ [v]) (IL @ [sorted_list_of_set AS2])
         else Inl CapacityAssert)"
proof -
  have c: "close_loop E SE (length SS) v i2 A =
     (i2 + length (takeWhile (\<lambda>x. E ! x = v) (drop i2 SE)),
      A - set (takeWhile (\<lambda>x. E ! x = v) (drop i2 SE)))" for v A
    using close_loop_eq [of E SE v i2 A] assms(2) by simp
  show ?thesis
    using assms(1)
    apply (subst sweep.simps)
    apply (simp only: if_True Let_def open_loop_eq c push_entry_eq split_conv)
    apply (simp only: snoc_assert_Tab sum.case split_conv if_distrib [of "case_sum Inl _"] cong: if_cong)
    apply (simp only: de_Morgan_disj not_not)
    done
qed

lemma sweep_done:
  "\<not> (i1 < NF \<or> i2 < NF) \<Longrightarrow> sweep S E SS SE NF i1 i2 AS T IL = Inr (T, IL)"
  by (subst sweep.simps) (simp only: if_False)


section \<open>A rule for the main loop, and facts about tables and sorted lists\<close>

lemma takeWhile_drop_nonempty:
  "i < length xs \<Longrightarrow> P (xs ! i) \<Longrightarrow> takeWhile P (drop i xs) \<noteq> []"
  by (simp add: takeWhile_eq_Nil_iff hd_drop_conv_nth)

lemma length_takeWhile_drop: "i + length (takeWhile P (drop i xs)) \<le> max i (length xs)"
  using length_takeWhile_le [of P "drop i xs"] by simp

lemma next_value_cases:
  "i1 < NF \<or> i2 < NF \<Longrightarrow>
   (i1 < NF \<and> next_value S E SS SE NF i1 i2 = S ! (SS ! i1)) \<or>
   (i2 < NF \<and> next_value S E SS SE NF i1 i2 = E ! (SE ! i2))"
  by (auto simp: next_value_def)

lemma sweep_rule:
  assumes len: "length SE = length SS"
    and init: "I i1 i2 AS T IL"
    and exit: "\<And>i1 i2 AS T IL. I i1 i2 AS T IL \<Longrightarrow> \<not> (i1 < length SS \<or> i2 < length SS) \<Longrightarrow>
                 P (Inr (T, IL))"
    and step: "\<And>i1 i2 AS T IL v O1 C1 AS2.
       I i1 i2 AS T IL \<Longrightarrow> i1 < length SS \<or> i2 < length SS \<Longrightarrow>
       v = next_value S E SS SE (length SS) i1 i2 \<Longrightarrow>
       O1 = takeWhile (\<lambda>x. S ! x = v) (drop i1 SS) \<Longrightarrow>
       C1 = takeWhile (\<lambda>x. E ! x = v) (drop i2 SE) \<Longrightarrow>
       AS2 = (AS \<union> set O1) - set C1 \<Longrightarrow>
       (i1 < length SS \<and> O1 \<noteq> []) \<or> (i2 < length SS \<and> C1 \<noteq> []) \<Longrightarrow>
       (if length T < length SS * 2 + 2 \<and> length IL < length SS * 2 + 2 then
          if T \<noteq> [] \<and> last T = v then P (Inl TabAssert)
          else if IL \<noteq> [] \<and> last IL = sorted_list_of_set AS2 then P (Inl IListAssert)
          else I (i1 + length O1) (i2 + length C1) AS2 (T @ [v]) (IL @ [sorted_list_of_set AS2])
        else P (Inl CapacityAssert))"
  shows "P (sweep S E SS SE (length SS) i1 i2 AS T IL)"
  using init
proof (induction "(length SS - i1) + (length SS - i2)" arbitrary: i1 i2 AS T IL rule: less_induct)
  case less
  show ?case
  proof (cases "i1 < length SS \<or> i2 < length SS")
    case False
    then show ?thesis
      using exit [OF less.prems] by (simp add: sweep_done)
  next
    case True
    define v where "v = next_value S E SS SE (length SS) i1 i2"
    define O1 where "O1 = takeWhile (\<lambda>x. S ! x = v) (drop i1 SS)"
    define C1 where "C1 = takeWhile (\<lambda>x. E ! x = v) (drop i2 SE)"
    define AS2 where "AS2 = (AS \<union> set O1) - set C1"
    have u: "sweep S E SS SE (length SS) i1 i2 AS T IL =
       (if length T < length SS * 2 + 2 \<and> length IL < length SS * 2 + 2 then
          if T \<noteq> [] \<and> last T = v then Inl TabAssert
          else if IL \<noteq> [] \<and> last IL = sorted_list_of_set AS2 then Inl IListAssert
          else sweep S E SS SE (length SS) (i1 + length O1) (i2 + length C1) AS2
                 (T @ [v]) (IL @ [sorted_list_of_set AS2])
        else Inl CapacityAssert)"
      unfolding sweep_unfold [OF True len] Let_def v_def O1_def C1_def AS2_def ..
    have ne: "(i1 < length SS \<and> O1 \<noteq> []) \<or> (i2 < length SS \<and> C1 \<noteq> [])"
      using next_value_cases [OF True, of S E SS SE] len
      unfolding O1_def C1_def v_def
      by (metis (mono_tags, lifting) takeWhile_drop_nonempty)
    note st = step [OF less.prems True v_def O1_def C1_def AS2_def ne]
    from ne have "(i1 < length SS \<and> 0 < length O1) \<or> (i2 < length SS \<and> 0 < length C1)"
      by simp
    moreover have "i1 + length O1 \<le> max i1 (length SS)" "i2 + length C1 \<le> max i2 (length SS)"
      unfolding O1_def C1_def using length_takeWhile_drop [of i1 _ SS] length_takeWhile_drop [of i2 _ SE] len
      by simp_all
    ultimately have dec: "(length SS - (i1 + length O1)) + (length SS - (i2 + length C1))
        < (length SS - i1) + (length SS - i2)"
      by arith
    show ?thesis
    proof (cases "length T < length SS * 2 + 2 \<and> length IL < length SS * 2 + 2")
      case cap: True
      show ?thesis
      proof (cases "T \<noteq> [] \<and> last T = v")
        case True
        with st cap u show ?thesis by auto
      next
        case tab: False
        show ?thesis
        proof (cases "IL \<noteq> [] \<and> last IL = sorted_list_of_set AS2")
          case True
          with st cap tab u show ?thesis by auto
        next
          case False
          with st cap tab have "I (i1 + length O1) (i2 + length C1) AS2 (T @ [v]) (IL @ [sorted_list_of_set AS2])"
            by simp
          from less.hyps [OF dec this] show ?thesis
            using cap tab False u by auto
        qed
      qed
    next
      case False
      with st u show ?thesis by auto
    qed
  qed
qed

lemma front_snoc: "front (T @ [v]) y \<longleftrightarrow> y \<le> v"
  by (simp add: front_def)

lemma stab_gap:
  "gapfree S E F a b \<Longrightarrow> a \<le> p \<Longrightarrow> p < b \<Longrightarrow> stab S E F p = stab S E F a"
  unfolding gapfree_def stab_def by (intro Collect_cong) (meson le_less_trans less_le_trans not_le order.trans)

lemma strict_sorted_le_last:
  fixes T :: "'a::linorder list"
  assumes s: "sorted_wrt (<) T" and t: "t \<in> set T"
  shows "t \<le> last T"
proof -
  from t obtain i where i: "i < length T" "T ! i = t"
    by (auto simp: in_set_conv_nth)
  have "sorted T" using s by (rule strict_sorted_imp_sorted)
  then have "T ! i \<le> T ! (length T - 1)"
    using i by (intro sorted_nth_mono) auto
  then show ?thesis
    using i by (cases "T = []") (auto simp: last_conv_nth)
qed

lemma table_ok_snoc:
  assumes ok: "table_ok S E F T IL"
    and lt: "T \<noteq> [] \<Longrightarrow> last T < v"
    and gap: "T \<noteq> [] \<Longrightarrow> gapfree S E F (last T) v"
    and A: "A = sorted_list_of_set (stab S E F v)"
  shows "table_ok S E F (T @ [v]) (IL @ [A])"
proof -
  from ok have len: "length IL = length T" and so: "sorted_wrt (<) T"
    and ent: "\<And>k. k < length T \<Longrightarrow> IL ! k = sorted_list_of_set (stab S E F (T ! k))"
    and gp: "\<And>k. Suc k < length T \<Longrightarrow> gapfree S E F (T ! k) (T ! Suc k)"
    by (auto simp: table_ok_def)
  have "\<forall>t\<in>set T. t < v"
  proof
    fix t assume t: "t \<in> set T"
    then have "T \<noteq> []" by auto
    with strict_sorted_le_last [OF so t] lt show "t < v" by auto
  qed
  then have 1: "sorted_wrt (<) (T @ [v])"
    using so by (simp add: sorted_wrt_append)
  have 2: "(IL @ [A]) ! k = sorted_list_of_set (stab S E F ((T @ [v]) ! k))" if "k < length (T @ [v])" for k
    using that ent [of k] len A by (cases "k < length T") (auto simp: nth_append)
  have 3: "gapfree S E F ((T @ [v]) ! k) ((T @ [v]) ! Suc k)" if "Suc k < length (T @ [v])" for k
  proof (cases "Suc k < length T")
    case True
    then show ?thesis using gp [of k] by (simp add: nth_append)
  next
    case False
    with that have k: "Suc k = length T" by simp
    then have ne: "T \<noteq> []" by auto
    then have "last T = T ! k" using k by (simp add: last_conv_nth flip: k)
    with gap [OF ne] k show ?thesis by (simp add: nth_append)
  qed
  show ?thesis
    unfolding table_ok_def using len 1 2 3 by simp
qed

lemma lower_bound_le: "lower_bound T p \<le> length T"
  by (induction T) auto

lemma lower_bound_less: "j < lower_bound T p \<Longrightarrow> T ! j < p"
proof (induction T arbitrary: j)
  case Nil
  then show ?case by simp
next
  case (Cons x xs)
  then show ?case by (cases j) (auto split: if_splits)
qed

lemma lower_bound_ge: "lower_bound T p < length T \<Longrightarrow> p \<le> T ! lower_bound T p"
  by (induction T) auto

lemma lower_bound_found:
  assumes "T \<noteq> []" "p \<le> last T"
  shows "lower_bound T p < length T"
proof (rule ccontr)
  assume "\<not> lower_bound T p < length T"
  with lower_bound_le [of T p] have "lower_bound T p = length T" by simp
  with assms(1) have "T ! (length T - 1) < p"
    by (intro lower_bound_less) simp
  with assms show False by (simp add: last_conv_nth)
qed

lemma Query_table_ok:
  assumes ok: "table_ok S E F (Tab rm) (IList rm)" and ne: "Tab rm \<noteq> []"
    and lo: "hd (Tab rm) \<le> p" and hi: "p \<le> last (Tab rm)"
  shows "Query rm p = Inr (sorted_list_of_set (stab S E F p))"
proof -
  define k where "k = lower_bound (Tab rm) p"
  have k: "k < length (Tab rm)" unfolding k_def using lower_bound_found [OF ne hi] .
  have ge: "p \<le> Tab rm ! k" unfolding k_def using lower_bound_ge k k_def by blast
  from ok have len: "length (IList rm) = length (Tab rm)"
    and ent: "\<And>k. k < length (Tab rm) \<Longrightarrow> IList rm ! k = sorted_list_of_set (stab S E F (Tab rm ! k))"
    and gp: "\<And>k. Suc k < length (Tab rm) \<Longrightarrow> gapfree S E F (Tab rm ! k) (Tab rm ! Suc k)"
    by (auto simp: table_ok_def)
  show ?thesis
  proof (cases "p < Tab rm ! k")
    case False
    with ge have "Tab rm ! k = p" by simp
    with ent [OF k] k len False show ?thesis
      by (simp add: Query_def k_def [symmetric])
  next
    case True
    have "k \<noteq> 0"
    proof
      assume "k = 0"
      with True lo ne show False by (simp add: hd_conv_nth)
    qed
    then obtain j where j: "k = Suc j" by (cases k) auto
    have "Tab rm ! j < p" using lower_bound_less [of j "Tab rm" p] j k_def by simp
    with gp [of j] True j k have "stab S E F p = stab S E F (Tab rm ! j)"
      by (intro stab_gap) auto
    with ent [of j] j k len True show ?thesis
      by (simp add: Query_def k_def [symmetric])
  qed
qed

lemma takeWhile_eq_filter_sorted:
  "sorted (map f ys) \<Longrightarrow> \<forall>x\<in>set ys. v \<le> f x \<Longrightarrow>
   takeWhile (\<lambda>x. f x = v) ys = filter (\<lambda>x. f x = v) ys"
proof (induction ys)
  case Nil
  then show ?case by simp
next
  case (Cons y ys)
  show ?case
  proof (cases "f y = v")
    case True
    with Cons show ?thesis by simp
  next
    case False
    with Cons.prems have "v < f y" by (simp add: less_le)
    with Cons.prems have "\<forall>x\<in>set ys. f x \<noteq> v" by auto
    then have "filter (\<lambda>x. f x = v) ys = []" by (simp add: filter_empty_conv)
    with False show ?thesis by simp
  qed
qed

lemma dropWhile_gt_sorted:
  "sorted (map f ys) \<Longrightarrow> \<forall>x\<in>set ys. v \<le> f x \<Longrightarrow>
   \<forall>x\<in>set (dropWhile (\<lambda>x. f x = v) ys). v < f x"
proof (induction ys)
  case Nil
  then show ?case by simp
next
  case (Cons y ys)
  show ?case
  proof (cases "f y = v")
    case True
    with Cons show ?thesis by simp
  next
    case False
    with Cons.prems have "v < f y" by (simp add: less_le)
    with Cons.prems False show ?thesis by auto
  qed
qed

lemma take_add_takeWhile:
  "take (i + length (takeWhile P (drop i xs))) xs = take i xs @ takeWhile P (drop i xs)"
  by (simp add: take_add takeWhile_eq_take [symmetric])

lemma drop_add_takeWhile:
  "drop (i + length (takeWhile P (drop i xs))) xs = dropWhile P (drop i xs)"
  by (simp add: dropWhile_eq_drop add.commute)

lemma next_value_le:
  "i1 < NF \<Longrightarrow> next_value S E SS SE NF i1 i2 \<le> S ! (SS ! i1)"
  "i2 < NF \<Longrightarrow> next_value S E SS SE NF i1 i2 \<le> E ! (SE ! i2)"
  by (auto simp: next_value_def)

lemma sorted_drop_ge:
  assumes "sorted (map f xs)" "i < length xs" "x \<in> set (drop i xs)"
  shows "f (xs ! i) \<le> f x"
proof -
  from assms(3) obtain k where k: "k < length xs - i" "x = xs ! (i + k)"
    by (auto simp: in_set_conv_nth)
  have "map f xs ! i \<le> map f xs ! (i + k)"
    using assms(1) k by (intro sorted_nth_mono) auto
  with k assms(2) show ?thesis by simp
qed

section \<open>One iteration of the sweep on well-formed input\<close>

lemma pending_split:
  assumes "sorted (map f xs)" and "\<forall>x\<in>set (take i xs). front T (f x)"
    and "\<forall>x\<in>set (drop i xs). \<not> front T (f x)" and "\<forall>x\<in>set (drop i xs). v \<le> f x"
    and nf: "\<not> front T v"
  defines "O1 \<equiv> takeWhile (\<lambda>x. f x = v) (drop i xs)"
  shows "\<forall>x\<in>set xs. (f x \<le> v) = (front T (f x) \<or> f x = v)"
    and "set O1 = {x \<in> set xs. f x = v}"
    and "\<forall>x\<in>set (take (i + length O1) xs). front (T @ [v]) (f x)"
    and "\<forall>x\<in>set (drop (i + length O1) xs). \<not> front (T @ [v]) (f x)"
proof -
  have sd: "sorted (map f (drop i xs))"
    using assms(1) by (simp add: sorted_wrt_drop flip: drop_map)
  have xs: "set xs = set (take i xs) \<union> set (drop i xs)"
    using set_append [of "take i xs" "drop i xs"] by simp
  have lt: "f x < v" if "front T (f x)" for x
    using that nf by (auto simp: front_def)
  show k: "\<forall>x\<in>set xs. (f x \<le> v) = (front T (f x) \<or> f x = v)"
  proof
    fix x assume "x \<in> set xs"
    then consider "x \<in> set (take i xs)" | "x \<in> set (drop i xs)"
      using xs by auto
    then show "(f x \<le> v) = (front T (f x) \<or> f x = v)"
    proof cases
      case 1
      with assms(2) have "front T (f x)" by simp
      with lt [of x] show ?thesis by simp
    next
      case 2
      with assms(3,4) have "\<not> front T (f x)" "v \<le> f x" by simp_all
      then show ?thesis by auto
    qed
  qed
  have O1: "O1 = filter (\<lambda>x. f x = v) (drop i xs)"
    unfolding O1_def using sd assms(4) by (rule takeWhile_eq_filter_sorted)
  have "f x \<noteq> v" if "x \<in> set (take i xs)" for x
    using that assms(2) lt [of x] by auto
  then show "set O1 = {x \<in> set xs. f x = v}"
    unfolding O1 using xs by auto
  show "\<forall>x\<in>set (take (i + length O1) xs). front (T @ [v]) (f x)"
    unfolding O1_def take_add_takeWhile front_snoc
    using assms(2) lt by (auto dest: set_takeWhileD simp: less_imp_le)
  show "\<forall>x\<in>set (drop (i + length O1) xs). \<not> front (T @ [v]) (f x)"
    unfolding O1_def drop_add_takeWhile front_snoc
    using dropWhile_gt_sorted [OF sd assms(4)] by (auto simp: not_le)
qed

lemma nth_in_drop: "i < length xs \<Longrightarrow> xs ! i \<in> set (drop i xs)"
  by (simp add: Cons_nth_drop_Suc [symmetric])

lemma wf_step:
  assumes ctx: "sweep_ctx S E SS SE U" and inv: "sweep_inv S E SS SE U i1 i2 AS T IL"
    and pend: "i1 < length SS \<or> i2 < length SS"
    and v: "v = next_value S E SS SE (length SS) i1 i2"
    and O1: "O1 = takeWhile (\<lambda>x. S ! x = v) (drop i1 SS)"
    and C1: "C1 = takeWhile (\<lambda>x. E ! x = v) (drop i2 SE)"
    and AS2: "AS2 = (AS \<union> set O1) - set C1"
    and ne: "(i1 < length SS \<and> O1 \<noteq> []) \<or> (i2 < length SS \<and> C1 \<noteq> [])"
  shows "length T < length SS * 2 + 2 \<and> length IL < length SS * 2 + 2"
    and "\<not> (T \<noteq> [] \<and> last T = v)"
    and "\<not> (IL \<noteq> [] \<and> last IL = sorted_list_of_set AS2)"
    and "sweep_inv S E SS SE U (i1 + length O1) (i2 + length C1) AS2
           (T @ [v]) (IL @ [sorted_list_of_set AS2])"
proof -
  from ctx have len: "length SE = length SS" and sets: "set SE = set SS"
    and sS: "sorted (map (\<lambda>i. S ! i) SS)" and sE: "sorted (map (\<lambda>i. E ! i) SE)"
    and wf: "\<And>x. x \<in> set SS \<Longrightarrow> S ! x < E ! x" and ub: "\<And>x. x \<in> set SS \<Longrightarrow> E ! x \<le> U"
    by (auto simp: sweep_ctx_def)
  from inv have i1: "i1 \<le> length SS" and i2: "i2 \<le> length SS"
    and ok: "table_ok S E (set SS) T IL"
    and tS: "\<forall>x\<in>set (take i1 SS). front T (S ! x)" and dS: "\<forall>x\<in>set (drop i1 SS). \<not> front T (S ! x)"
    and tE: "\<forall>x\<in>set (take i2 SE). front T (E ! x)" and dE: "\<forall>x\<in>set (drop i2 SE). \<not> front T (E ! x)"
    and AS: "AS = {x \<in> set SS. front T (S ! x) \<and> \<not> front T (E ! x)}"
    and cap: "length T + (length SS - i1) + (length SS - i2) \<le> 2 * length SS + 1"
    and TU: "\<forall>t\<in>set T. t \<le> U"
    by (auto simp: sweep_inv_def)
  from ok have lenIL: "length IL = length T" by (simp add: table_ok_def)
  have pS: "\<forall>x\<in>set (drop i1 SS). v \<le> S ! x"
  proof
    fix x assume x: "x \<in> set (drop i1 SS)"
    then have l: "i1 < length SS" by (cases "i1 < length SS") auto
    from sorted_drop_ge [OF sS l x] next_value_le(1) [OF l, of S E SS SE i2] v
    show "v \<le> S ! x" by simp
  qed
  have pE: "\<forall>x\<in>set (drop i2 SE). v \<le> E ! x"
  proof
    fix x assume x: "x \<in> set (drop i2 SE)"
    then have l: "i2 < length SE" by (cases "i2 < length SE") auto
    from sorted_drop_ge [OF sE l x] next_value_le(2) [of i2 "length SS" S E SS SE i1] l len v
    show "v \<le> E ! x" by simp
  qed
  have vkey: "(i1 < length SS \<and> v = S ! (SS ! i1)) \<or> (i2 < length SS \<and> v = E ! (SE ! i2))"
    using next_value_cases [OF pend, of S E SS SE] v by simp
  have nf: "\<not> front T v"
    using vkey dS dE nth_in_drop [of i1 SS] nth_in_drop [of i2 SE] len by auto
  have "\<exists>y. y \<in> set SS \<and> (v = S ! y \<or> v = E ! y)"
    using vkey
  proof
    assume "i1 < length SS \<and> v = S ! (SS ! i1)"
    then show ?thesis by (intro exI [of _ "SS ! i1"]) simp
  next
    assume k: "i2 < length SS \<and> v = E ! (SE ! i2)"
    then have "SE ! i2 \<in> set SS" using len sets nth_mem [of i2 SE] by simp
    with k show ?thesis by (intro exI [of _ "SE ! i2"]) simp
  qed
  then obtain y where y: "y \<in> set SS" "v = S ! y \<or> v = E ! y"
    by blast
  have vU: "v \<le> U"
    using y wf [of y] ub [of y] by auto
  note S = pending_split [OF sS tS dS pS nf, folded O1]
  note E = pending_split [OF sE tE dE pE nf, folded C1, unfolded sets]
  have lt: "T \<noteq> [] \<Longrightarrow> last T < v"
    using nf by (simp add: front_def)
  have AS2': "AS2 = {x \<in> set SS. S ! x \<le> v \<and> \<not> E ! x \<le> v}"
  proof -
    have "(x \<in> AS2) = (x \<in> set SS \<and> S ! x \<le> v \<and> \<not> E ! x \<le> v)" for x
    proof (cases "x \<in> set SS")
      case False
      then show ?thesis
        unfolding AS2 AS S(2) E(2) by auto
    next
      case True
      have a: "S ! x = v \<Longrightarrow> \<not> front T (E ! x)"
        using wf [OF True] nf by (auto simp: front_def)
      show ?thesis
        unfolding AS2 AS S(2) E(2) using True S(1) E(1) a by auto
    qed
    then show ?thesis by blast
  qed
  have stabv: "stab S E (set SS) v = AS2"
    unfolding AS2' stab_def by (auto simp: not_le)
  have gap: "T \<noteq> [] \<Longrightarrow> gapfree S E (set SS) (last T) v"
    unfolding gapfree_def using S(1) E(1) by (auto simp: front_def)
  have ok': "table_ok S E (set SS) (T @ [v]) (IL @ [sorted_list_of_set AS2])"
  proof (rule table_ok_snoc [OF ok])
    show "T \<noteq> [] \<Longrightarrow> last T < v" by (rule lt)
    show "T \<noteq> [] \<Longrightarrow> gapfree S E (set SS) (last T) v" by (rule gap)
    show "sorted_list_of_set AS2 = sorted_list_of_set (stab S E (set SS) v)"
      unfolding stabv ..
  qed
  show "length T < length SS * 2 + 2 \<and> length IL < length SS * 2 + 2"
    using cap lenIL by simp
  show "\<not> (T \<noteq> [] \<and> last T = v)"
    using lt by auto
  show "\<not> (IL \<noteq> [] \<and> last IL = sorted_list_of_set AS2)"
  proof
    assume a: "IL \<noteq> [] \<and> last IL = sorted_list_of_set AS2"
    then have T: "T \<noteq> []" using lenIL by auto
    from a have "IL \<noteq> []" by simp
    then have "last IL = IL ! (length IL - 1)"
      by (rule last_conv_nth)
    also have "\<dots> = IL ! (length T - 1)"
      using lenIL by simp
    also have "\<dots> = sorted_list_of_set (stab S E (set SS) (T ! (length T - 1)))"
      using ok T by (simp add: table_ok_def)
    also have "stab S E (set SS) (T ! (length T - 1)) = AS"
      unfolding AS stab_def using T by (auto simp: front_def last_conv_nth not_le)
    finally have "sorted_list_of_set AS = sorted_list_of_set AS2"
      using a by simp
    moreover have "finite AS" "finite AS2"
      unfolding AS AS2' by simp_all
    ultimately have eq: "AS = AS2"
      by (intro sorted_list_of_set_inject)
    from vkey show False
    proof
      assume k: "i1 < length SS \<and> v = S ! (SS ! i1)"
      then have m: "SS ! i1 \<in> set SS" by simp
      with k wf [OF m] have "SS ! i1 \<in> AS2"
        unfolding AS2' by (simp add: not_le)
      moreover have "SS ! i1 \<notin> AS"
        unfolding AS using k nf by simp
      ultimately show False using eq by simp
    next
      assume k: "i2 < length SS \<and> v = E ! (SE ! i2)"
      then have m: "SE ! i2 \<in> set SS" using len sets nth_mem [of i2 SE] by simp
      from k have n: "SE ! i2 \<notin> AS2"
        unfolding AS2' by simp
      have l: "S ! (SE ! i2) < v" using wf [OF m] k by simp
      have "(S ! (SE ! i2) \<le> v) = (front T (S ! (SE ! i2)) \<or> S ! (SE ! i2) = v)"
        using S(1) m by (rule bspec)
      moreover from l have "S ! (SE ! i2) \<le> v" "S ! (SE ! i2) \<noteq> v"
        by simp_all
      ultimately have "front T (S ! (SE ! i2))"
        by blast
      with k nf m have "SE ! i2 \<in> AS"
        unfolding AS by simp
      with n eq show False by simp
    qed
  qed
  have b1: "i1 + length O1 \<le> length SS" and b2: "i2 + length C1 \<le> length SS"
    using length_takeWhile_drop [of i1 "\<lambda>x. S ! x = v" SS] length_takeWhile_drop [of i2 "\<lambda>x. E ! x = v" SE]
      i1 i2 len unfolding O1 C1 by simp_all
  have ne': "0 < length O1 \<or> 0 < length C1"
    using ne by auto
  have "Suc (length T) + (length SS - (i1 + length O1)) + (length SS - (i2 + length C1))
        \<le> 2 * length SS + 1"
    using cap b1 b2 ne' by arith
  then have cap': "length (T @ [v]) + (length SS - (i1 + length O1)) + (length SS - (i2 + length C1))
        \<le> 2 * length SS + 1"
    by simp
  have AS2'': "AS2 = {x \<in> set SS. front (T @ [v]) (S ! x) \<and> \<not> front (T @ [v]) (E ! x)}"
    unfolding AS2' front_snoc ..
  show "sweep_inv S E SS SE U (i1 + length O1) (i2 + length C1) AS2
           (T @ [v]) (IL @ [sorted_list_of_set AS2])"
    unfolding sweep_inv_def
    using b1 b2 ok' S(3,4) AS2'' cap' TU vU
      pending_split(3,4) [OF sE tE dE pE nf, folded C1]
    by simp
qed

section \<open>The sweep as a whole\<close>

lemma adjacent_snoc:
  assumes "\<forall>k. 0 < k \<and> k < length IL \<longrightarrow> IL ! k \<noteq> IL ! (k - 1)"
    and "IL \<noteq> [] \<Longrightarrow> last IL \<noteq> A"
  shows "\<forall>k. 0 < k \<and> k < length (IL @ [A]) \<longrightarrow> (IL @ [A]) ! k \<noteq> (IL @ [A]) ! (k - 1)"
proof (intro allI impI)
  fix k assume k: "0 < k \<and> k < length (IL @ [A])"
  show "(IL @ [A]) ! k \<noteq> (IL @ [A]) ! (k - 1)"
  proof (cases "k < length IL")
    case True
    then have "k - 1 < length IL" by simp
    with True k assms(1) show ?thesis by (simp add: nth_append)
  next
    case False
    with k have kl: "k = length IL" by simp
    with k have ne: "IL \<noteq> []" by auto
    then have "last IL = IL ! (k - 1)" using kl by (simp add: last_conv_nth)
    with assms(2) [OF ne] kl k show ?thesis
      by (auto simp: nth_append)
  qed
qed

lemma gen_step:
  assumes len: "length SE = length SS" and inv: "gen_inv MINV S SS i1 i2 AS T IL"
    and pend: "i1 < length SS \<or> i2 < length SS"
    and v: "v = next_value S E SS SE (length SS) i1 i2"
    and O1: "O1 = takeWhile (\<lambda>x. S ! x = v) (drop i1 SS)"
    and C1: "C1 = takeWhile (\<lambda>x. E ! x = v) (drop i2 SE)"
    and AS2: "AS2 = (AS \<union> set O1) - set C1"
    and ne: "(i1 < length SS \<and> O1 \<noteq> []) \<or> (i2 < length SS \<and> C1 \<noteq> [])"
  shows "length T < length SS * 2 + 2 \<and> length IL < length SS * 2 + 2"
    and "\<not> (IL \<noteq> [] \<and> last IL = sorted_list_of_set AS2) \<Longrightarrow>
         gen_inv MINV S SS (i1 + length O1) (i2 + length C1) AS2
           (T @ [v]) (IL @ [sorted_list_of_set AS2])"
proof -
  from inv have i1: "i1 \<le> length SS" and i2: "i2 \<le> length SS" and lenIL: "length IL = length T"
    and cap: "length T + (length SS - i1) + (length SS - i2) \<le> 2 * length SS + 1"
    and fin: "finite AS" and sub: "AS \<subseteq> set SS"
    and ent: "\<forall>A\<in>set IL. sorted_wrt (<) A \<and> set A \<subseteq> set SS"
    and adj: "\<forall>k. 0 < k \<and> k < length IL \<longrightarrow> IL ! k \<noteq> IL ! (k - 1)"
    and T0: "T = [] \<longrightarrow> i1 = 0 \<and> 0 < length SS \<and> S ! (SS ! 0) \<le> MINV"
    and T1: "T \<noteq> [] \<longrightarrow> hd T \<le> MINV"
    by (auto simp: gen_inv_def)
  show "length T < length SS * 2 + 2 \<and> length IL < length SS * 2 + 2"
    using cap lenIL by simp
  assume na: "\<not> (IL \<noteq> [] \<and> last IL = sorted_list_of_set AS2)"
  have b1: "i1 + length O1 \<le> length SS" and b2: "i2 + length C1 \<le> length SS"
    using length_takeWhile_drop [of i1 "\<lambda>x. S ! x = v" SS] length_takeWhile_drop [of i2 "\<lambda>x. E ! x = v" SE]
      i1 i2 len unfolding O1 C1 by simp_all
  have ne': "0 < length O1 \<or> 0 < length C1"
    using ne by auto
  have "Suc (length T) + (length SS - (i1 + length O1)) + (length SS - (i2 + length C1))
        \<le> 2 * length SS + 1"
    using cap b1 b2 ne' by arith
  then have cap': "length (T @ [v]) + (length SS - (i1 + length O1)) + (length SS - (i2 + length C1))
        \<le> 2 * length SS + 1"
    by simp
  have "set O1 \<subseteq> set SS"
    unfolding O1 by (auto dest: set_takeWhileD in_set_dropD)
  with sub have sub2: "AS2 \<subseteq> set SS" unfolding AS2 by auto
  then have fin2: "finite AS2" by (rule finite_subset) simp
  have ent2: "\<forall>A\<in>set (IL @ [sorted_list_of_set AS2]). sorted_wrt (<) A \<and> set A \<subseteq> set SS"
    using ent sub2 fin2 by auto
  have adj2: "\<forall>k. 0 < k \<and> k < length (IL @ [sorted_list_of_set AS2]) \<longrightarrow>
       (IL @ [sorted_list_of_set AS2]) ! k \<noteq> (IL @ [sorted_list_of_set AS2]) ! (k - 1)"
    using adj na by (intro adjacent_snoc) auto
  have hd2: "hd (T @ [v]) \<le> MINV"
  proof (cases "T = []")
    case True
    with T0 have "i1 = 0" "0 < length SS" "S ! (SS ! 0) \<le> MINV" by simp_all
    with next_value_le(1) [of 0 "length SS" S E SS SE i2] v True show ?thesis by simp
  next
    case False
    with T1 show ?thesis by simp
  qed
  show "gen_inv MINV S SS (i1 + length O1) (i2 + length C1) AS2
           (T @ [v]) (IL @ [sorted_list_of_set AS2])"
    unfolding gen_inv_def using b1 b2 lenIL cap' fin2 sub2 ent2 adj2 hd2 by simp
qed

lemma sweep_gen:
  assumes len: "length SE = length SS" and inv: "gen_inv MINV S SS i1 i2 AS T IL"
  shows "gen_post MINV SS (sweep S E SS SE (length SS) i1 i2 AS T IL)"
proof (rule sweep_rule [where I = "gen_inv MINV S SS" and P = "gen_post MINV SS", OF len inv], goal_cases)
  case (1 i1 i2 AS T IL)
  then show ?case
    by (auto simp: gen_inv_def gen_post_def)
next
  case (2 i1 i2 AS T IL v O1 C1 AS2)
  note st = gen_step [OF len 2(1,2,3,4,5,6,7)]
  show ?case
    using st by (auto simp: gen_post_def)
qed

lemma sweep_wf:
  assumes ctx: "sweep_ctx S E SS SE U" and inv: "sweep_inv S E SS SE U i1 i2 AS T IL"
  shows "\<exists>T' IL' AS'. sweep S E SS SE (length SS) i1 i2 AS T IL = Inr (T', IL') \<and>
           sweep_inv S E SS SE U (length SS) (length SS) AS' T' IL'"
proof -
  have len: "length SE = length SS" using ctx by (simp add: sweep_ctx_def)
  show ?thesis
  proof (rule sweep_rule [where I = "sweep_inv S E SS SE U"
        and P = "\<lambda>r. \<exists>T' IL' AS'. r = Inr (T', IL') \<and> sweep_inv S E SS SE U (length SS) (length SS) AS' T' IL'",
        OF len inv], goal_cases)
    case (1 i1 i2 AS T IL)
    then have "i1 = length SS" "i2 = length SS"
      by (auto simp: sweep_inv_def)
    with 1 show ?case by auto
  next
    case (2 i1 i2 AS T IL v O1 C1 AS2)
    note st = wf_step [OF ctx 2(1,2,3,4,5,6,7)]
    show ?case
      using st by auto
  qed
qed

section \<open>The tables of Build on any input\<close>

lemma Build_tables_unfold:
  "Build_tables MINV MAXV S E SS SE =
     (case sweep S E SS SE (length SS) 0 0 {}
             (if 0 = length SS \<or> S ! (SS ! 0) > MINV then [MINV] else [])
             (if 0 = length SS \<or> S ! (SS ! 0) > MINV then [Empty] else []) of
        Inl e \<Rightarrow> Inl e
      | Inr (T1, IL1) \<Rightarrow>
          if 0 = length SS \<or> E ! (SE ! (length SS - 1)) < MAXV then
            (if length T1 < length SS * 2 + 2 \<and> length IL1 < length SS * 2 + 2
             then Inr \<lparr>Tab = T1 @ [MAXV], IList = IL1 @ [Empty]\<rparr>
             else Inl CapacityAssert)
          else Inr \<lparr>Tab = T1, IList = IL1\<rparr>)"
  by (simp add: Build_tables_def Let_def push_entry_eq split: sum.splits prod.splits)

lemma gen_inv_init:
  "gen_inv MINV S SS 0 0 {}
     (if 0 = length SS \<or> S ! (SS ! 0) > MINV then [MINV] else [])
     (if 0 = length SS \<or> S ! (SS ! 0) > MINV then [Empty] else [])"
  by (auto simp: gen_inv_def Empty_def not_less)

lemma Build_tables_gen:
  assumes len: "length SE = length SS"
  shows "Build_tables MINV MAXV S E SS SE \<noteq> Inl CapacityAssert"
    and "Build_tables MINV MAXV S E SS SE = Inr rm' \<Longrightarrow>
           length (IList rm') = length (Tab rm') \<and> length (Tab rm') \<le> 2 * length SS + 2 \<and>
           (\<forall>A\<in>set (IList rm'). sorted_wrt (<) A \<and> set A \<subseteq> set SS) \<and>
           Tab rm' \<noteq> [] \<and> hd (Tab rm') \<le> MINV \<and>
           (\<forall>k. 0 < k \<and> k < length (IList rm') \<and>
                (Suc k < length (IList rm') \<or>
                 \<not> (0 = length SS \<or> E ! (SE ! (length SS - 1)) < MAXV)) \<longrightarrow>
                IList rm' ! k \<noteq> IList rm' ! (k - 1))"
proof -
  define r where "r = sweep S E SS SE (length SS) 0 0 {}
             (if 0 = length SS \<or> S ! (SS ! 0) > MINV then [MINV] else [])
             (if 0 = length SS \<or> S ! (SS ! 0) > MINV then [Empty] else [])"
  have post: "gen_post MINV SS r"
    unfolding r_def using len gen_inv_init by (rule sweep_gen)
  have u: "Build_tables MINV MAXV S E SS SE =
     (case r of
        Inl e \<Rightarrow> Inl e
      | Inr (T1, IL1) \<Rightarrow>
          if 0 = length SS \<or> E ! (SE ! (length SS - 1)) < MAXV then
            (if length T1 < length SS * 2 + 2 \<and> length IL1 < length SS * 2 + 2
             then Inr \<lparr>Tab = T1 @ [MAXV], IList = IL1 @ [Empty]\<rparr>
             else Inl CapacityAssert)
          else Inr \<lparr>Tab = T1, IList = IL1\<rparr>)"
    unfolding r_def by (rule Build_tables_unfold)
  show "Build_tables MINV MAXV S E SS SE \<noteq> Inl CapacityAssert"
    unfolding u using post by (auto simp: gen_post_def split: sum.splits)
  assume b: "Build_tables MINV MAXV S E SS SE = Inr rm'"
  then obtain T1 IL1 where r: "r = Inr (T1, IL1)"
    unfolding u by (auto split: sum.splits)
  from post r have p: "length IL1 = length T1" "length T1 \<le> 2 * length SS + 1"
    "\<forall>A\<in>set IL1. sorted_wrt (<) A \<and> set A \<subseteq> set SS"
    "\<forall>k. 0 < k \<and> k < length IL1 \<longrightarrow> IL1 ! k \<noteq> IL1 ! (k - 1)"
    "T1 \<noteq> []" "hd T1 \<le> MINV"
    by (auto simp: gen_post_def)
  show "length (IList rm') = length (Tab rm') \<and> length (Tab rm') \<le> 2 * length SS + 2 \<and>
           (\<forall>A\<in>set (IList rm'). sorted_wrt (<) A \<and> set A \<subseteq> set SS) \<and>
           Tab rm' \<noteq> [] \<and> hd (Tab rm') \<le> MINV \<and>
           (\<forall>k. 0 < k \<and> k < length (IList rm') \<and>
                (Suc k < length (IList rm') \<or>
                 \<not> (0 = length SS \<or> E ! (SE ! (length SS - 1)) < MAXV)) \<longrightarrow>
                IList rm' ! k \<noteq> IList rm' ! (k - 1))"
  proof (cases "0 = length SS \<or> E ! (SE ! (length SS - 1)) < MAXV")
    case True
    with b r p(1,2) have rm': "rm' = \<lparr>Tab = T1 @ [MAXV], IList = IL1 @ [Empty]\<rparr>"
      unfolding u by simp
    have "(IL1 @ [Empty]) ! k \<noteq> (IL1 @ [Empty]) ! (k - 1)" if "0 < k" "Suc k < length (IL1 @ [Empty])" for k
    proof -
      from that have "k < length IL1" "k - 1 < length IL1" by simp_all
      with that(1) p(4) show ?thesis by (simp add: nth_append)
    qed
    then show ?thesis
      unfolding rm' using p True by (simp add: Empty_def)
  next
    case False
    with b r have rm': "rm' = \<lparr>Tab = T1, IList = IL1\<rparr>"
      unfolding u by simp
    show ?thesis
      unfolding rm' using p False by simp
  qed
qed

section \<open>The tables of Build on well-formed input\<close>

lemma table_ok_empty_input:
  "MINV < MAXV \<Longrightarrow> table_ok S E {} [MINV, MAXV] [Empty, Empty]"
  by (auto simp: table_ok_def stab_def gapfree_def Empty_def less_Suc_eq)

lemma sweep_inv_init:
  assumes ctx: "sweep_ctx S E SS SE U" and ne: "SS \<noteq> []"
  shows "sweep_inv S E SS SE U 0 0 {}
     (if 0 = length SS \<or> S ! (SS ! 0) > MINV then [MINV] else [])
     (if 0 = length SS \<or> S ! (SS ! 0) > MINV then [Empty] else [])"
proof (cases "S ! (SS ! 0) > MINV")
  case False
  with ne show ?thesis
    by (simp add: sweep_inv_def table_ok_def front_def)
next
  case True
  from ctx have len: "length SE = length SS" and sets: "set SE = set SS"
    and sS: "sorted (map (\<lambda>i. S ! i) SS)"
    and wf: "\<And>x. x \<in> set SS \<Longrightarrow> S ! x < E ! x" and ub: "\<And>x. x \<in> set SS \<Longrightarrow> E ! x \<le> U"
    by (auto simp: sweep_ctx_def)
  have lo: "MINV < S ! x" if "x \<in> set SS" for x
  proof -
    from ne have "0 < length SS" by simp
    from sorted_drop_ge [OF sS this, of x] that True show ?thesis by simp
  qed
  have lo': "MINV < E ! x" if "x \<in> set SS" for x
    using lo [OF that] wf [OF that] by simp
  have "stab S E (set SS) MINV = {}"
    unfolding stab_def using lo by (auto simp: not_le)
  then have ok: "table_ok S E (set SS) [MINV] [Empty]"
    by (simp add: table_ok_def Empty_def)
  have "MINV \<le> U"
    using lo' [of "SS ! 0"] ub [of "SS ! 0"] ne by simp
  with True ok lo lo' sets show ?thesis
    by (auto simp: sweep_inv_def front_def not_le)
qed

lemma Build_tables_wf:
  assumes ctx: "sweep_ctx S E SS SE (E ! (SE ! (length SS - 1)))" and mm: "MINV < MAXV"
  shows "\<exists>rm'. Build_tables MINV MAXV S E SS SE = Inr rm' \<and>
           table_ok S E (set SS) (Tab rm') (IList rm') \<and> Tab rm' \<noteq> [] \<and>
           MAXV \<le> last (Tab rm')"
proof (cases "SS = []")
  case True
  with ctx have "SE = []" by (simp add: sweep_ctx_def)
  with True have "Build_tables MINV MAXV S E SS SE = Inr \<lparr>Tab = [MINV, MAXV], IList = [Empty, Empty]\<rparr>"
    by (simp add: Build_tables_unfold sweep_done)
  with True table_ok_empty_input [OF mm] show ?thesis by simp
next
  case False
  define U where "U = E ! (SE ! (length SS - 1))"
  note ctx' = ctx [folded U_def]
  from ctx have len: "length SE = length SS" and sets: "set SE = set SS"
    and wf: "\<And>x. x \<in> set SS \<Longrightarrow> S ! x < E ! x" and ub: "\<And>x. x \<in> set SS \<Longrightarrow> E ! x \<le> U"
    by (auto simp: sweep_ctx_def U_def)
  from sweep_wf [OF ctx' sweep_inv_init [OF ctx' False]]
  obtain T1 IL1 AS' where r: "sweep S E SS SE (length SS) 0 0 {}
             (if 0 = length SS \<or> S ! (SS ! 0) > MINV then [MINV] else [])
             (if 0 = length SS \<or> S ! (SS ! 0) > MINV then [Empty] else []) = Inr (T1, IL1)"
    and inv: "sweep_inv S E SS SE U (length SS) (length SS) AS' T1 IL1"
    by blast
  from inv have ok: "table_ok S E (set SS) T1 IL1"
    and fS: "\<And>x. x \<in> set SS \<Longrightarrow> front T1 (S ! x)" and fE: "\<And>x. x \<in> set SS \<Longrightarrow> front T1 (E ! x)"
    and cap: "length T1 \<le> 2 * length SS + 1" and TU: "\<forall>t\<in>set T1. t \<le> U"
    using len sets by (auto simp: sweep_inv_def)
  from ok have lenIL: "length IL1 = length T1" by (simp add: table_ok_def)
  have m: "SE ! (length SS - 1) \<in> set SS"
    using False len sets nth_mem [of "length SS - 1" SE] by simp
  from fE [OF m] have T1: "T1 \<noteq> []" and "U \<le> last T1"
    by (simp_all add: front_def U_def)
  moreover from TU T1 have "last T1 \<le> U" by simp
  ultimately have last: "last T1 = U" by simp
  show ?thesis
  proof (cases "U < MAXV")
    case True
    have b: "Build_tables MINV MAXV S E SS SE = Inr \<lparr>Tab = T1 @ [MAXV], IList = IL1 @ [Empty]\<rparr>"
      unfolding Build_tables_unfold r using True cap lenIL by (simp add: U_def)
    have "E ! x < MAXV" if "x \<in> set SS" for x
      using ub [OF that] True by simp
    then have "stab S E (set SS) MAXV = {}"
      unfolding stab_def by (auto simp: not_less less_imp_le)
    then have e: "Empty = sorted_list_of_set (stab S E (set SS) MAXV)"
      by (simp add: Empty_def)
    have g: "gapfree S E (set SS) (last T1) MAXV"
      unfolding gapfree_def using fS fE by (auto simp: front_def not_less)
    have "table_ok S E (set SS) (T1 @ [MAXV]) (IL1 @ [Empty])"
      using ok _ _ e by (rule table_ok_snoc) (use last True g in simp_all)
    with b show ?thesis by simp
  next
    case False
    then have b: "Build_tables MINV MAXV S E SS SE = Inr \<lparr>Tab = T1, IList = IL1\<rparr>"
      unfolding Build_tables_unfold r using \<open>SS \<noteq> []\<close> by (simp add: U_def)
    with ok T1 last False show ?thesis by simp
  qed
qed

lemma Build_Some:
  "0 < N \<Longrightarrow> Build MINV MAXV rm (Some S) (Some E) N =
     Build_tables MINV MAXV S E (sort_key (\<lambda>i. S ! i) (nondegen S E N))
       (sort_key (\<lambda>i. E ! i) (nondegen S E N))"
  by (simp add: Build_def filter_loop_nondegen)

lemma Build_early_return:
  "S = None \<or> E = None \<or> N = 0 \<Longrightarrow> Build MINV MAXV rm S E N = Inr rm"
  by (auto simp: Build_def split: option.splits)

lemma set_nondegen: "set (nondegen S E N) = {i. i < N \<and> S ! i \<noteq> E ! i}"
  by (auto simp: nondegen_def)

lemma sorted_key_le_last:
  assumes "sorted (map f xs)" "x \<in> set xs"
  shows "f x \<le> f (xs ! (length xs - 1))"
proof -
  from assms(2) obtain j where j: "j < length xs" "xs ! j = x"
    by (auto simp: in_set_conv_nth)
  have "map f xs ! j \<le> map f xs ! (length xs - 1)"
    using assms(1) j by (intro sorted_nth_mono) auto
  with j show ?thesis by simp
qed

lemma sweep_ctx_sorted:
  assumes wf: "\<forall>i<N. S ! i \<le> E ! i"
  defines "SS \<equiv> sort_key (\<lambda>i. S ! i) (nondegen S E N)"
    and "SE \<equiv> sort_key (\<lambda>i. E ! i) (nondegen S E N)"
  shows "sweep_ctx S E SS SE (E ! (SE ! (length SS - 1)))"
proof -
  have sets: "set SS = set (nondegen S E N)" "set SE = set (nondegen S E N)"
    and len: "length SE = length SS"
    and so: "sorted (map (\<lambda>i. S ! i) SS)" "sorted (map (\<lambda>i. E ! i) SE)"
    by (simp_all add: SS_def SE_def)
  have "S ! x < E ! x" if "x \<in> set SS" for x
    using that wf by (auto simp: sets set_nondegen less_le)
  moreover have "E ! x \<le> E ! (SE ! (length SS - 1))" if "x \<in> set SS" for x
    using sorted_key_le_last [OF so(2), of x] that sets len by simp
  ultimately show ?thesis
    unfolding sweep_ctx_def using sets len so by simp
qed

section \<open>Build and Query\<close>

lemma SlowCheck_stab:
  "sorted_list_of_set (stab S E (set (nondegen S E N)) p) = SlowCheck p S E N"
proof -
  have "stab S E (set (nondegen S E N)) p = set (SlowCheck p S E N)"
    by (auto simp: stab_def set_nondegen SlowCheck_def)
  moreover have "sorted (SlowCheck p S E N)" "distinct (SlowCheck p S E N)"
    by (simp_all add: SlowCheck_def sorted_wrt_filter)
  ultimately show ?thesis
    by (simp add: sorted_list_of_set.idem_if_sorted_distinct)
qed

lemma Query_fresh: "Query fresh p = Inr Empty"
  by (simp add: Query_def fresh_def)

lemma Query_in_bounds:
  assumes len: "length (IList rm) = length (Tab rm)" and hd: "Tab rm \<noteq> [] \<longrightarrow> hd (Tab rm) \<le> p"
  shows "\<exists>r. Query rm p = Inr r \<and> (r = Empty \<or> r \<in> set (IList rm))"
proof -
  define k where "k = lower_bound (Tab rm) p"
  show ?thesis
  proof (cases "k = length (Tab rm)")
    case True
    then show ?thesis by (simp add: Query_def flip: k_def)
  next
    case False
    with lower_bound_le [of "Tab rm" p] have k: "k < length (Tab rm)"
      by (simp add: k_def)
    then have ne: "Tab rm \<noteq> []" by auto
    show ?thesis
    proof (cases "p < Tab rm ! k")
      case True
      have "k \<noteq> 0"
      proof
        assume "k = 0"
        with True hd ne show False by (simp add: hd_conv_nth)
      qed
      then have "k - 1 < length (IList rm)" using k len by simp
      with True k False len \<open>k \<noteq> 0\<close> show ?thesis
        by (simp add: Query_def Let_def flip: k_def)
    next
      case nl: False
      with k False len show ?thesis
        by (simp add: Query_def Let_def flip: k_def)
    qed
  qed
qed

lemma Query_result:
  "Query rm p = Inr r \<Longrightarrow> r = Empty \<or> r \<in> set (IList rm)"
  by (auto simp: Query_def Let_def split: if_splits)

lemma Build_wf:
  assumes wf: "\<forall>i<N. S ! i \<le> E ! i" and mm: "MINV < MAXV" and N: "0 < N"
  shows "\<exists>rm'. Build MINV MAXV rm (Some S) (Some E) N = Inr rm' \<and>
           table_ok S E (set (nondegen S E N)) (Tab rm') (IList rm') \<and> Tab rm' \<noteq> [] \<and>
           hd (Tab rm') \<le> MINV \<and> MAXV \<le> last (Tab rm')"
proof -
  define SS where "SS = sort_key (\<lambda>i. S ! i) (nondegen S E N)"
  define SE where "SE = sort_key (\<lambda>i. E ! i) (nondegen S E N)"
  have b: "Build MINV MAXV rm (Some S) (Some E) N = Build_tables MINV MAXV S E SS SE"
    unfolding SS_def SE_def using N by (rule Build_Some)
  have ctx: "sweep_ctx S E SS SE (E ! (SE ! (length SS - 1)))"
    unfolding SS_def SE_def using wf by (rule sweep_ctx_sorted)
  from Build_tables_wf [OF ctx mm] obtain rm' where rm': "Build_tables MINV MAXV S E SS SE = Inr rm'"
    "table_ok S E (set SS) (Tab rm') (IList rm')" "Tab rm' \<noteq> []" "MAXV \<le> last (Tab rm')"
    by blast
  have "length SE = length SS" by (simp add: SS_def SE_def)
  from Build_tables_gen(2) [OF this rm'(1)] have "hd (Tab rm') \<le> MINV" by simp
  moreover have "set SS = set (nondegen S E N)" by (simp add: SS_def)
  ultimately show ?thesis
    using b rm' by simp
qed

lemma Build_gen:
  assumes b: "Build MINV MAXV rm (Some S) (Some E) N = Inr rm'" and N: "0 < N"
  shows "length (IList rm') = length (Tab rm')"
    and "length (Tab rm') \<le> 2 * length (nondegen S E N) + 2"
    and "\<forall>A\<in>set (IList rm'). sorted_wrt (<) A \<and> set A \<subseteq> {i. i < N \<and> S ! i \<noteq> E ! i}"
    and "Tab rm' \<noteq> []" and "hd (Tab rm') \<le> MINV"
    and "\<forall>k. 0 < k \<and> k < length (IList rm') \<and>
            (Suc k < length (IList rm') \<or> (\<exists>i<N. S ! i \<noteq> E ! i \<and> MAXV \<le> E ! i)) \<longrightarrow>
            IList rm' ! k \<noteq> IList rm' ! (k - 1)"
proof -
  define SS where "SS = sort_key (\<lambda>i. S ! i) (nondegen S E N)"
  define SE where "SE = sort_key (\<lambda>i. E ! i) (nondegen S E N)"
  have bt: "Build_tables MINV MAXV S E SS SE = Inr rm'"
    using b by (simp add: Build_Some [OF N] SS_def SE_def)
  have len: "length SE = length SS" and lenSS: "length SS = length (nondegen S E N)"
    and sets: "set SS = {i. i < N \<and> S ! i \<noteq> E ! i}" "set SE = {i. i < N \<and> S ! i \<noteq> E ! i}"
    and so: "sorted (map (\<lambda>i. E ! i) SE)"
    by (simp_all add: SS_def SE_def set_nondegen)
  note g = Build_tables_gen(2) [OF len bt]
  show "length (IList rm') = length (Tab rm')"
    and "length (Tab rm') \<le> 2 * length (nondegen S E N) + 2"
    and "\<forall>A\<in>set (IList rm'). sorted_wrt (<) A \<and> set A \<subseteq> {i. i < N \<and> S ! i \<noteq> E ! i}"
    and "Tab rm' \<noteq> []" and "hd (Tab rm') \<le> MINV"
    using g by (simp_all add: lenSS [symmetric] sets [symmetric])
  have "\<not> (0 = length SS \<or> E ! (SE ! (length SS - 1)) < MAXV)"
    if "\<exists>i<N. S ! i \<noteq> E ! i \<and> MAXV \<le> E ! i"
  proof -
    from that obtain i where i: "i \<in> set SE" "MAXV \<le> E ! i"
      by (auto simp: sets)
    then have "SE \<noteq> []" by auto
    moreover from sorted_key_le_last [OF so i(1)] i(2) len have "MAXV \<le> E ! (SE ! (length SS - 1))"
      by simp
    ultimately show ?thesis using len by (auto simp: not_less)
  qed
  with g show "\<forall>k. 0 < k \<and> k < length (IList rm') \<and>
            (Suc k < length (IList rm') \<or> (\<exists>i<N. S ! i \<noteq> E ! i \<and> MAXV \<le> E ! i)) \<longrightarrow>
            IList rm' ! k \<noteq> IList rm' ! (k - 1)"
    by blast
qed

lemma Build_no_capacity_error: "Build MINV MAXV rm S E N \<noteq> Inl CapacityAssert"
proof (cases "S = None \<or> E = None \<or> N = 0")
  case True
  then show ?thesis by (simp add: Build_early_return)
next
  case False
  then obtain S' E' where "S = Some S'" "E = Some E'" "0 < N" by auto
  then show ?thesis
    using Build_tables_gen(1) [of "sort_key (\<lambda>i. E' ! i) (nondegen S' E' N)"
        "sort_key (\<lambda>i. S' ! i) (nondegen S' E' N)" MINV MAXV S' E']
    by (simp add: Build_Some)
qed

section \<open>What every sequence of Build calls keeps\<close>

lemma built_inv_fresh: "built_inv MINV fresh"
  by (simp add: built_inv_def fresh_def)

lemma built_inv_Build:
  assumes "Build MINV MAXV rm S E N = Inr rm'" and "built_inv MINV rm"
  shows "built_inv MINV rm'"
proof (cases "S = None \<or> E = None \<or> N = 0")
  case True
  with assms show ?thesis by (simp add: Build_early_return)
next
  case False
  then obtain S' E' where s: "S = Some S'" "E = Some E'" "0 < N" by auto
  from Build_gen(1,3,4,5) [OF assms(1) [unfolded s(1,2)] s(3)] show ?thesis
    by (simp add: built_inv_def)
qed

lemma built_inv_Builds:
  "Builds MINV MAXV rm calls = Inr rm' \<Longrightarrow> built_inv MINV rm \<Longrightarrow> built_inv MINV rm'"
proof (induction calls arbitrary: rm)
  case Nil
  then show ?case by simp
next
  case (Cons c cs)
  obtain S E N where c: "c = (S, E, N)" by (cases c)
  from Cons.prems(1) obtain rm1 where b: "Build MINV MAXV rm S E N = Inr rm1"
    and bs: "Builds MINV MAXV rm1 cs = Inr rm'"
    by (auto simp: c split: sum.splits)
  show ?case
    by (rule Cons.IH [OF bs built_inv_Build [OF b Cons.prems(2)]])
qed

section \<open>The order of equal keys\<close>

lemma next_value_cong:
  assumes "i1 < NF \<or> i2 < NF"
    and "i1 < NF \<Longrightarrow> S ! (SS' ! i1) = S ! (SS ! i1)"
    and "i2 < NF \<Longrightarrow> E ! (SE' ! i2) = E ! (SE ! i2)"
  shows "next_value S E SS' SE' NF i1 i2 = next_value S E SS SE NF i1 i2"
  using assms by (auto simp: next_value_def)

lemma mset_takeWhile_key:
  assumes so: "sorted (map f ys)" and k: "map f ys' = map f ys" and m: "mset ys' = mset ys"
  shows "mset (takeWhile (\<lambda>x. f x = v) ys') = mset (takeWhile (\<lambda>x. f x = v) ys)"
proof (cases ys)
  case Nil
  with k show ?thesis by simp
next
  case (Cons y zs)
  with k obtain y' zs' where c': "ys' = y' # zs'" and fy: "f y' = f y"
    by (cases ys') auto
  show ?thesis
  proof (cases "f y = v")
    case False
    with Cons c' fy show ?thesis by simp
  next
    case True
    with so Cons have ge: "\<forall>x\<in>set ys. v \<le> f x" by auto
    then have ge': "\<forall>x\<in>set ys'. v \<le> f x"
      using mset_eq_setD [OF m] by simp
    have so': "sorted (map f ys')" using so k by simp
    show ?thesis
      unfolding takeWhile_eq_filter_sorted [OF so ge] takeWhile_eq_filter_sorted [OF so' ge']
      using m by simp
  qed
qed

lemma length_takeWhile_key:
  "map f ys' = map f ys \<Longrightarrow>
   length (takeWhile (\<lambda>x. f x = v) ys') = length (takeWhile (\<lambda>x. f x = v) ys)"
proof -
  assume k: "map f ys' = map f ys"
  have "length (takeWhile (\<lambda>x. f x = v) zs) = length (takeWhile (\<lambda>k. k = v) (map f zs))" for zs
    by (simp add: takeWhile_map comp_def)
  then show ?thesis using k by simp
qed

lemma tie_segment:
  fixes v
  assumes so: "sorted (map f xs)" and k: "map f xs' = map f xs" and m: "mset xs' = mset xs"
    and t: "mset (take i xs') = mset (take i xs)"
  defines "O1 \<equiv> takeWhile (\<lambda>x. f x = v) (drop i xs)"
    and "O1' \<equiv> takeWhile (\<lambda>x. f x = v) (drop i xs')"
  shows "length O1' = length O1" and "set O1' = set O1"
    and "mset (take (i + length O1) xs') = mset (take (i + length O1) xs)"
proof -
  have kd: "map f (drop i xs') = map f (drop i xs)"
    using k by (simp flip: drop_map)
  have "mset (take i xs') + mset (drop i xs') = mset (take i xs) + mset (drop i xs)"
    using m by (simp flip: mset_append)
  with t have md: "mset (drop i xs') = mset (drop i xs)" by simp
  have sd: "sorted (map f (drop i xs))"
    using so by (simp add: sorted_wrt_drop flip: drop_map)
  show l: "length O1' = length O1"
    unfolding O1_def O1'_def using kd by (rule length_takeWhile_key)
  have mo: "mset O1' = mset O1"
    unfolding O1_def O1'_def using sd kd md by (rule mset_takeWhile_key)
  then show "set O1' = set O1" by (rule mset_eq_setD)
  have "mset (take (i + length O1') xs') = mset (take (i + length O1) xs)"
    unfolding O1_def O1'_def take_add_takeWhile using t mo [unfolded O1_def O1'_def] by simp
  with l show "mset (take (i + length O1) xs') = mset (take (i + length O1) xs)" by simp
qed

lemma sweep_tie_independent:
  assumes len: "length SE = length SS" "length SS' = length SS" "length SE' = length SS"
    and kS: "map (\<lambda>i. S ! i) SS' = map (\<lambda>i. S ! i) SS"
    and kE: "map (\<lambda>i. E ! i) SE' = map (\<lambda>i. E ! i) SE"
    and mS: "mset SS' = mset SS" and mE: "mset SE' = mset SE"
    and sS: "sorted (map (\<lambda>i. S ! i) SS)" and sE: "sorted (map (\<lambda>i. E ! i) SE)"
    and t1: "mset (take i1 SS') = mset (take i1 SS)"
    and t2: "mset (take i2 SE') = mset (take i2 SE)"
  shows "sweep S E SS SE (length SS) i1 i2 AS T IL = sweep S E SS' SE' (length SS) i1 i2 AS T IL"
proof -
  define R where "R = sweep S E SS' SE' (length SS) i1 i2 AS T IL"
  define I where "I = (\<lambda>i1 i2 AS T IL.
      mset (take i1 SS') = mset (take i1 SS) \<and> mset (take i2 SE') = mset (take i2 SE) \<and>
      sweep S E SS' SE' (length SS) i1 i2 AS T IL = R)"
  have init: "I i1 i2 AS T IL"
    unfolding I_def R_def using t1 t2 by simp
  have len': "length SE' = length SS'" using len by simp
  have "sweep S E SS SE (length SS) i1 i2 AS T IL = R"
  proof (rule sweep_rule [where I = I and P = "\<lambda>r. r = R", OF len(1) init], goal_cases)
    case (1 i1 i2 AS T IL)
    then show ?case
      unfolding I_def by (simp add: sweep_done)
  next
    case (2 i1 i2 AS T IL v O1 C1 AS2)
    from 2(1) have a1: "mset (take i1 SS') = mset (take i1 SS)"
      and a2: "mset (take i2 SE') = mset (take i2 SE)"
      and r: "sweep S E SS' SE' (length SS) i1 i2 AS T IL = R"
      by (simp_all add: I_def)
    have pend': "i1 < length SS' \<or> i2 < length SS'" using 2(2) len by simp
    have n1: "S ! (SS' ! i1) = S ! (SS ! i1)" if "i1 < length SS"
      using arg_cong [OF kS, of "\<lambda>xs. xs ! i1"] that len by simp
    have n2: "E ! (SE' ! i2) = E ! (SE ! i2)" if "i2 < length SS"
      using arg_cong [OF kE, of "\<lambda>xs. xs ! i2"] that len by simp
    have v': "next_value S E SS' SE' (length SS) i1 i2 = v"
      unfolding 2(3) using 2(2) n1 n2 by (rule next_value_cong)
    note s1 = tie_segment [OF sS kS mS a1, of v, folded 2(4)]
    note s2 = tie_segment [OF sE kE mE a2, of v, folded 2(5)]
    note u0 = sweep_unfold [OF pend' len', of S E AS T IL, unfolded len(2)]
    have u: "sweep S E SS' SE' (length SS) i1 i2 AS T IL =
       (if length T < length SS * 2 + 2 \<and> length IL < length SS * 2 + 2 then
          if T \<noteq> [] \<and> last T = v then Inl TabAssert
          else if IL \<noteq> [] \<and> last IL = sorted_list_of_set AS2 then Inl IListAssert
          else sweep S E SS' SE' (length SS) (i1 + length O1) (i2 + length C1) AS2
                 (T @ [v]) (IL @ [sorted_list_of_set AS2])
        else Inl CapacityAssert)"
      unfolding u0 Let_def v' s1(1) s2(1) s1(2) s2(2) 2(6) ..
    show ?case
      using u r s1(3) s2(3) by (auto simp: I_def)
  qed
  then show ?thesis by (simp add: R_def)
qed

lemma sorted_key_unique:
  fixes f :: "'b \<Rightarrow> 'a::linorder"
  assumes "mset xs' = mset xs" "sorted (map f xs)" "sorted (map f xs')"
  shows "map f xs' = map f xs"
proof -
  have "mset (map f xs') = mset (map f xs)"
    using assms(1) by simp
  from properties_for_sort [OF this assms(3)] properties_for_sort [OF refl assms(2)]
  show ?thesis by simp
qed

lemma Build_tables_tie_independent:
  assumes len: "length SE = length SS"
    and mS: "mset SS' = mset SS" and mE: "mset SE' = mset SE"
    and sS: "sorted (map (\<lambda>i. S ! i) SS)" and sE: "sorted (map (\<lambda>i. E ! i) SE)"
    and sS': "sorted (map (\<lambda>i. S ! i) SS')" and sE': "sorted (map (\<lambda>i. E ! i) SE')"
  shows "Build_tables MINV MAXV S E SS' SE' = Build_tables MINV MAXV S E SS SE"
proof -
  have l: "length SS' = length SS" "length SE' = length SS"
    using mset_eq_length [OF mS] mset_eq_length [OF mE] len by simp_all
  have kS: "map (\<lambda>i. S ! i) SS' = map (\<lambda>i. S ! i) SS"
    using mS sS sS' by (rule sorted_key_unique)
  have kE: "map (\<lambda>i. E ! i) SE' = map (\<lambda>i. E ! i) SE"
    using mE sE sE' by (rule sorted_key_unique)
  have h: "S ! (SS' ! 0) = S ! (SS ! 0)" if "0 < length SS"
    using arg_cong [OF kS, of "\<lambda>xs. xs ! 0"] that l by simp
  have e: "E ! (SE' ! (length SS - 1)) = E ! (SE ! (length SS - 1))" if "0 < length SS"
    using arg_cong [OF kE, of "\<lambda>xs. xs ! (length SS - 1)"] that l len by simp
  have c0: "(0 = length SS \<or> S ! (SS' ! 0) > MINV) = (0 = length SS \<or> S ! (SS ! 0) > MINV)"
    using h by (cases "0 < length SS") auto
  have c1: "(0 = length SS \<or> E ! (SE' ! (length SS - 1)) < MAXV) =
            (0 = length SS \<or> E ! (SE ! (length SS - 1)) < MAXV)"
    using e by (cases "0 < length SS") auto
  have sw: "sweep S E SS' SE' (length SS) 0 0 {} T IL = sweep S E SS SE (length SS) 0 0 {} T IL" for T IL
    using sweep_tie_independent [OF len l kS kE mS mE sS sE, of 0 0 "{}" T IL] by simp
  show ?thesis
    unfolding Build_tables_unfold l(1) c0 c1 sw ..
qed

section \<open>Concrete runs\<close>

lemma readme_wf: "\<forall>i<4. [0, 5, 10, 15 :: int] ! i \<le> [8, 7, 13, 25] ! i"
  by (simp add: numeral_eq_Suc All_less_Suc)

lemma INT_MIN_less_MAX: "INT_MIN < INT_MAX"
  by (simp add: INT_MIN_def INT_MAX_def)

lemma Build_readme_tables:
  "Build INT_MIN INT_MAX rm (Some [0, 5, 10, 15]) (Some [8, 7, 13, 25]) 4 =
     Inr \<lparr>Tab = [INT_MIN, 0, 5, 7, 8, 10, 13, 15, 25, INT_MAX],
          IList = [[], [0], [0, 1], [0], [], [2], [], [3], [], []]\<rparr>"
  by code_simp

lemma Builds_readme_tables:
  "Builds INT_MIN INT_MAX fresh [(Some [0, 5, 10, 15], Some [8, 7, 13, 25], 4), (None, None, 0)] =
     Inr \<lparr>Tab = [INT_MIN, 0, 5, 7, 8, 10, 13, 15, 25, INT_MAX],
          IList = [[], [0], [0, 1], [0], [], [2], [], [3], [], []]\<rparr>"
  by (simp add: Build_readme_tables Build_early_return)

lemma Build_degenerate_tables:
  "Build INT_MIN INT_MAX fresh (Some [0, 4]) (Some [8, 4]) 2 =
     Inr \<lparr>Tab = [INT_MIN, 0, 8, INT_MAX], IList = [[], [0], [], []]\<rparr>"
  by code_simp

section \<open>The claims\<close>

text \<open>
  Claim C1. For \<open>N\<close> intervals with \<open>start[i] <= end[i]\<close>, \<open>Build(S, E, N)\<close> returns (no
  assertion fails) and afterwards \<open>Query(p)\<close> returns exactly the indices \<open>i\<close> with
  \<open>start[i] <= p < end[i]\<close>, for every point \<open>p\<close> of the domain (\<open>MINV <= p <= MAXV\<close>),
  the points below every start and at or above every end included. The vector returned is
  the one \<open>SlowCheck\<close> computes, element by element. The instance is in any state when
  \<open>N > 0\<close>; for \<open>N = 0\<close> it is a default-constructed one (\<open>Build\<close> returns at once and
  leaves the tables as they are).
\<close>

theorem C1_query_matches_brute_force:
  assumes "N \<le> length S" and "N \<le> length E"
    and wf: "\<forall>i<N. S ! i \<le> E ! i"
    and mm: "MINV < MAXV" and lo: "MINV \<le> p" and hi: "p \<le> MAXV"
    and st: "0 < N \<or> rm = fresh"
  shows "\<exists>rm'. Build MINV MAXV rm (Some S) (Some E) N = Inr rm' \<and>
           Query rm' p = Inr (SlowCheck p S E N) \<and>
           set (SlowCheck p S E N) = {i. i < N \<and> S ! i \<le> p \<and> p < E ! i}"
proof (cases "0 < N")
  case True
  from Build_wf [OF wf mm True, of rm] obtain rm' where
    b: "Build MINV MAXV rm (Some S) (Some E) N = Inr rm'"
    and ok: "table_ok S E (set (nondegen S E N)) (Tab rm') (IList rm')"
    and ne: "Tab rm' \<noteq> []" and h: "hd (Tab rm') \<le> MINV" and l: "MAXV \<le> last (Tab rm')"
    by blast
  have "Query rm' p = Inr (sorted_list_of_set (stab S E (set (nondegen S E N)) p))"
    using ok ne by (rule Query_table_ok) (use h l lo hi in auto)
  then have "Query rm' p = Inr (SlowCheck p S E N)"
    by (simp add: SlowCheck_stab)
  with b show ?thesis
    by (auto simp: SlowCheck_def)
next
  case False
  with st have "N = 0" "rm = fresh" by simp_all
  then show ?thesis
    by (simp add: Build_early_return Query_fresh SlowCheck_def Empty_def)
qed

theorem C1_witness:
  "\<exists>rm'. Build INT_MIN INT_MAX fresh (Some [0, 5, 10, 15]) (Some [8, 7, 13, 25]) 4 = Inr rm' \<and>
     Query rm' 6 = Inr [0, 1] \<and> Query rm' INT_MAX = Inr []"
proof -
  have w: "\<forall>i<4. [0, 5, 10, 15 :: int] ! i \<le> [8, 7, 13, 25] ! i"
    by (simp add: numeral_eq_Suc All_less_Suc)
  have s: "SlowCheck 6 [0, 5, 10, 15 :: int] [8, 7, 13, 25] 4 = [0, 1]"
    "SlowCheck INT_MAX [0, 5, 10, 15 :: int] [8, 7, 13, 25] 4 = []"
    by code_simp+
  have m: "INT_MIN < INT_MAX" "INT_MIN \<le> 6" "6 \<le> INT_MAX" "INT_MIN \<le> INT_MAX"
    by (simp_all add: INT_MIN_def INT_MAX_def)
  note t = C1_query_matches_brute_force [of 4 "[0, 5, 10, 15]" "[8, 7, 13, 25]" INT_MIN INT_MAX _ fresh,
      OF _ _ w m(1)]
  from t [of 6] m obtain rm1 where
    1: "Build INT_MIN INT_MAX fresh (Some [0, 5, 10, 15]) (Some [8, 7, 13, 25]) 4 = Inr rm1"
      "Query rm1 6 = Inr (SlowCheck 6 [0, 5, 10, 15 :: int] [8, 7, 13, 25] 4)"
    by auto
  from t [of INT_MAX] m obtain rm2 where
    2: "Build INT_MIN INT_MAX fresh (Some [0, 5, 10, 15]) (Some [8, 7, 13, 25]) 4 = Inr rm2"
      "Query rm2 INT_MAX = Inr (SlowCheck INT_MAX [0, 5, 10, 15] [8, 7, 13, 25] 4)"
    by auto
  from 1(1) 2(1) have "rm2 = rm1" by simp
  with 1 2 show ?thesis
    by (simp add: s)
qed

text \<open>
  Claim C2, as the specification states it, gives \<open>Query(8) = {1}\<close> for
  \<open>S = [0, 5, 10, 15]\<close>, \<open>E = [8, 7, 13, 25]\<close>. Interval 1 is \<open>[5, 7)\<close> and interval 0
  is \<open>[0, 8)\<close>: neither holds 8, and the code returns the empty vector there, as the
  brute-force reference does.
\<close>

theorem C2_query_8_counterexample:
  "Build_Query INT_MIN INT_MAX fresh (Some [0, 5, 10, 15]) (Some [8, 7, 13, 25]) 4 8 = Inr [] \<and>
   Build_Query INT_MIN INT_MAX fresh (Some [0, 5, 10, 15]) (Some [8, 7, 13, 25]) 4 8 \<noteq> Inr [1] \<and>
   SlowCheck 8 [0, 5, 10, 15] [8, 7, 13, 25 :: int] 4 = []"
  by code_simp

text \<open>
  Claim C2, amended. For \<open>S = [0, 5, 10, 15]\<close>, \<open>E = [8, 7, 13, 25]\<close>, whatever the state
  before, \<open>Build\<close> returns and the queries give \<open>Query(-1) = {}\<close>, \<open>Query(0) = {0}\<close>,
  \<open>Query(6) = {0, 1}\<close>, \<open>Query(8) = {}\<close>, \<open>Query(10) = {2}\<close>, \<open>Query(13) = {}\<close>,
  \<open>Query(20) = {3}\<close>, \<open>Query(25) = {}\<close>.
\<close>

theorem C2_concrete_scenario:
  "\<exists>rm'. Build INT_MIN INT_MAX rm (Some [0, 5, 10, 15]) (Some [8, 7, 13, 25]) 4 = Inr rm' \<and>
     Query rm' (- 1) = Inr [] \<and> Query rm' 0 = Inr [0] \<and> Query rm' 6 = Inr [0, 1] \<and>
     Query rm' 8 = Inr [] \<and> Query rm' 10 = Inr [2] \<and> Query rm' 13 = Inr [] \<and>
     Query rm' 20 = Inr [3] \<and> Query rm' 25 = Inr []"
  unfolding Build_readme_tables by (simp add: Query_def INT_MIN_def INT_MAX_def Empty_def)

text \<open>
  Claim C3 asks that \<open>Build\<close> with null pointers or with count zero leaves an instance on
  which every query returns the empty set. \<open>Build\<close> returns before \<^verbatim>\<open>Tab.clear()\<close>: on an
  instance built from the interval \<open>[0, 8)\<close>, a \<open>Build\<close> with null pointers, or with two
  empty arrays, keeps both tables and \<open>Query(5)\<close> still returns \<open>{0}\<close>.
\<close>

theorem C3_early_return_keeps_tables:
  "Build INT_MIN INT_MAX fresh (Some [0]) (Some [8]) 1 =
     Inr \<lparr>Tab = [INT_MIN, 0, 8, INT_MAX], IList = [[], [0], [], []]\<rparr> \<and>
   Build INT_MIN INT_MAX \<lparr>Tab = [INT_MIN, 0, 8, INT_MAX], IList = [[], [0], [], []]\<rparr> None None 0 =
     Inr \<lparr>Tab = [INT_MIN, 0, 8, INT_MAX], IList = [[], [0], [], []]\<rparr> \<and>
   Build INT_MIN INT_MAX \<lparr>Tab = [INT_MIN, 0, 8, INT_MAX], IList = [[], [0], [], []]\<rparr>
       (Some []) (Some []) 0 =
     Inr \<lparr>Tab = [INT_MIN, 0, 8, INT_MAX], IList = [[], [0], [], []]\<rparr> \<and>
   Query \<lparr>Tab = [INT_MIN, 0, 8, INT_MAX], IList = [[], [0], [], []]\<rparr> 5 = Inr [0]"
  by code_simp

text \<open>
  Claim C4 is stated for every input. For the intervals \<open>S = [INT_MAX, 0, 3]\<close>,
  \<open>E = [3, 5, 7]\<close> (the first has its start above its end) no assertion fails, the sweep
  ends with the breakpoint \<open>INT_MAX\<close>, and the entry for \<open>MAXV\<close> is appended after it
  because the largest end, 7, is below \<open>MAXV\<close>: the table ends with \<open>INT_MAX\<close> twice.
\<close>

theorem C4_malformed_counterexample:
  "Build INT_MIN INT_MAX fresh (Some [INT_MAX, 0, 3]) (Some [3, 5, 7]) 3 =
     Inr \<lparr>Tab = [INT_MIN, 0, 3, 5, 7, INT_MAX, INT_MAX],
          IList = [[], [1], [1, 2], [2], [], [0], []]\<rparr> \<and>
   \<not> sorted_wrt (<)
       (Tab \<lparr>Tab = [INT_MIN, 0, 3, 5, 7, INT_MAX, INT_MAX],
             IList = [[], [1], [1, 2], [2], [], [0], []]\<rparr>)"
  by code_simp

text \<open>
  Claim C4, amended. For every input with \<open>start[i] <= end[i]\<close> for all \<open>i\<close> (and
  \<open>MINV < MAXV\<close>), \<open>Build\<close> returns and the breakpoint table is strictly increasing
  afterwards; a \<open>Build\<close> with count zero keeps a strictly increasing table strictly
  increasing.
\<close>

theorem C4_breakpoints_strictly_increasing:
  assumes "N \<le> length S" and "N \<le> length E"
    and wf: "\<forall>i<N. S ! i \<le> E ! i"
    and mm: "MINV < MAXV"
    and st: "0 < N \<or> sorted_wrt (<) (Tab rm)"
  shows "\<exists>rm'. Build MINV MAXV rm (Some S) (Some E) N = Inr rm' \<and> sorted_wrt (<) (Tab rm')"
proof (cases "0 < N")
  case True
  from Build_wf [OF wf mm True, of rm] show ?thesis
    by (auto simp: table_ok_def)
next
  case False
  with st show ?thesis
    by (simp add: Build_early_return)
qed

theorem C4_witness:
  "\<exists>rm'. Build INT_MIN INT_MAX fresh (Some [0, 5, 10, 15]) (Some [8, 7, 13, 25]) 4 = Inr rm' \<and>
     sorted_wrt (<) (Tab rm')"
  using C4_breakpoints_strictly_increasing [of 4 "[0, 5, 10, 15]" "[8, 7, 13, 25]" INT_MIN INT_MAX fresh,
      OF _ _ readme_wf INT_MIN_less_MAX]
  by simp

text \<open>
  Claim C5 fails on the single interval \<open>[0, 8)\<close>: the sweep ends at the breakpoint 8
  with the empty active set, and the entry that \<open>Build\<close> appends for \<open>MAXV\<close> is the
  empty set again. The assertion of the source that compares the last two entries stands
  inside the loop only.
\<close>

theorem C5_sentinel_counterexample:
  "Build INT_MIN INT_MAX fresh (Some [0]) (Some [8]) 1 =
     Inr \<lparr>Tab = [INT_MIN, 0, 8, INT_MAX], IList = [[], [0], [], []]\<rparr> \<and>
   IList \<lparr>Tab = [INT_MIN, 0, 8, INT_MAX], IList = [[], [0], [], []]\<rparr> ! 3 =
     IList \<lparr>Tab = [INT_MIN, 0, 8, INT_MAX], IList = [[], [0], [], []]\<rparr> ! (3 - 1)"
  by code_simp

text \<open>
  Claim C5, amended. Whenever \<open>Build\<close> (with \<open>N > 0\<close>) returns, and it returns for every
  input with \<open>start[i] <= end[i]\<close> for all \<open>i\<close>, \<open>IList[k] != IList[k-1]\<close> for every \<open>k\<close>
  with \<open>0 < k\<close> other than the last index; it holds at the last index too when some
  non-degenerate interval ends at \<open>MAXV\<close> or above (then no entry for \<open>MAXV\<close> is appended
  after the sweep).
\<close>

theorem C5_adjacent_active_sets_differ:
  assumes "N \<le> length S" and "N \<le> length E" and N: "0 < N"
  shows "(\<forall>rm'. Build MINV MAXV rm (Some S) (Some E) N = Inr rm' \<longrightarrow>
            (\<forall>k. 0 < k \<and> k < length (IList rm') \<and>
                 (Suc k < length (IList rm') \<or> (\<exists>i<N. S ! i \<noteq> E ! i \<and> MAXV \<le> E ! i)) \<longrightarrow>
                 IList rm' ! k \<noteq> IList rm' ! (k - 1))) \<and>
         ((\<forall>i<N. S ! i \<le> E ! i) \<and> MINV < MAXV \<longrightarrow>
            (\<exists>rm'. Build MINV MAXV rm (Some S) (Some E) N = Inr rm'))"
proof (rule conjI)
  show "\<forall>rm'. Build MINV MAXV rm (Some S) (Some E) N = Inr rm' \<longrightarrow>
            (\<forall>k. 0 < k \<and> k < length (IList rm') \<and>
                 (Suc k < length (IList rm') \<or> (\<exists>i<N. S ! i \<noteq> E ! i \<and> MAXV \<le> E ! i)) \<longrightarrow>
                 IList rm' ! k \<noteq> IList rm' ! (k - 1))"
  proof (rule allI, rule impI)
    fix rm' assume b: "Build MINV MAXV rm (Some S) (Some E) N = Inr rm'"
    show "\<forall>k. 0 < k \<and> k < length (IList rm') \<and>
                 (Suc k < length (IList rm') \<or> (\<exists>i<N. S ! i \<noteq> E ! i \<and> MAXV \<le> E ! i)) \<longrightarrow>
                 IList rm' ! k \<noteq> IList rm' ! (k - 1)"
      by (rule Build_gen(6) [OF b N])
  qed
  show "(\<forall>i<N. S ! i \<le> E ! i) \<and> MINV < MAXV \<longrightarrow>
            (\<exists>rm'. Build MINV MAXV rm (Some S) (Some E) N = Inr rm')"
  proof
    assume a: "(\<forall>i<N. S ! i \<le> E ! i) \<and> MINV < MAXV"
    then have wf: "\<forall>i<N. S ! i \<le> E ! i" and mm: "MINV < MAXV" by simp_all
    from Build_wf [OF wf mm N, of rm]
    show "\<exists>rm'. Build MINV MAXV rm (Some S) (Some E) N = Inr rm'"
      by blast
  qed
qed

theorem C5_witness:
  "\<exists>rm'. Build INT_MIN INT_MAX fresh (Some [0, 5, 10, 15]) (Some [8, 7, 13, 25]) 4 = Inr rm' \<and>
     IList rm' ! 1 \<noteq> IList rm' ! 0 \<and> IList rm' ! 8 \<noteq> IList rm' ! 7"
proof -
  note t = C5_adjacent_active_sets_differ [of 4 "[0, 5, 10, 15]" "[8, 7, 13, 25]" INT_MIN INT_MAX fresh]
  from t readme_wf INT_MIN_less_MAX obtain rm' where
    b: "Build INT_MIN INT_MAX fresh (Some [0, 5, 10, 15]) (Some [8, 7, 13, 25]) 4 = Inr rm'"
    by auto
  from t b have d: "\<And>k. 0 < k \<Longrightarrow> Suc k < length (IList rm') \<Longrightarrow> IList rm' ! k \<noteq> IList rm' ! (k - 1)"
    by auto
  from b have "length (IList rm') = 10"
    by (auto simp: Build_readme_tables)
  with d [of 1] d [of 8] b show ?thesis
    by auto
qed

text \<open>
  Claim C6. For every input (start above end included), whenever \<open>Build\<close> returns, and
  it returns for every input with \<open>start[i] <= end[i]\<close> for all \<open>i\<close>, an interval \<open>i\<close> with
  \<open>start[i] = end[i]\<close> is in no result of \<open>Query\<close>: for every point \<open>p\<close> of the domain,
  \<open>Query(p)\<close> returns a vector and \<open>i\<close> is not in it.
\<close>

theorem C6_degenerate_never_returned:
  assumes "N \<le> length S" and "N \<le> length E"
    and i: "i < N" and d: "S ! i = E ! i" and lo: "MINV \<le> p"
  shows "(\<forall>rm'. Build MINV MAXV rm (Some S) (Some E) N = Inr rm' \<longrightarrow>
            (\<exists>r. Query rm' p = Inr r \<and> i \<notin> set r)) \<and>
         ((\<forall>j<N. S ! j \<le> E ! j) \<and> MINV < MAXV \<longrightarrow>
            (\<exists>rm'. Build MINV MAXV rm (Some S) (Some E) N = Inr rm'))"
proof (rule conjI)
  from i have N: "0 < N" by simp
  show "\<forall>rm'. Build MINV MAXV rm (Some S) (Some E) N = Inr rm' \<longrightarrow>
            (\<exists>r. Query rm' p = Inr r \<and> i \<notin> set r)"
  proof (rule allI, rule impI)
    fix rm' assume b: "Build MINV MAXV rm (Some S) (Some E) N = Inr rm'"
    note g = Build_gen [OF b N]
    from g(4,5) lo have "Tab rm' \<noteq> [] \<longrightarrow> hd (Tab rm') \<le> p" by simp
    from Query_in_bounds [OF g(1) this] obtain r where
      r: "Query rm' p = Inr r" "r = Empty \<or> r \<in> set (IList rm')"
      by blast
    from r(2) g(3) d have "i \<notin> set r"
      by (auto simp: Empty_def)
    with r(1) show "\<exists>r. Query rm' p = Inr r \<and> i \<notin> set r" by blast
  qed
  show "(\<forall>j<N. S ! j \<le> E ! j) \<and> MINV < MAXV \<longrightarrow>
            (\<exists>rm'. Build MINV MAXV rm (Some S) (Some E) N = Inr rm')"
  proof
    assume "(\<forall>j<N. S ! j \<le> E ! j) \<and> MINV < MAXV"
    then have wf: "\<forall>j<N. S ! j \<le> E ! j" and mm: "MINV < MAXV" by simp_all
    from Build_wf [OF wf mm N, of rm]
    show "\<exists>rm'. Build MINV MAXV rm (Some S) (Some E) N = Inr rm'"
      by blast
  qed
qed

theorem C6_witness:
  "\<exists>rm' r. Build INT_MIN INT_MAX fresh (Some [0, 4]) (Some [8, 4]) 2 = Inr rm' \<and>
     Query rm' 4 = Inr r \<and> 1 \<notin> set r"
proof -
  have m: "INT_MIN \<le> 4" by (simp add: INT_MIN_def)
  have w: "\<forall>j<2. [0, 4 :: int] ! j \<le> [8, 4] ! j"
    by (simp add: numeral_eq_Suc All_less_Suc)
  note t = C6_degenerate_never_returned [of 2 "[0, 4]" "[8, 4]" 1 INT_MIN 4 INT_MAX fresh, OF _ _ _ _ m]
  from t w INT_MIN_less_MAX obtain rm' where
    b: "Build INT_MIN INT_MAX fresh (Some [0, 4]) (Some [8, 4]) 2 = Inr rm'"
    by auto
  from t b obtain r where "Query rm' 4 = Inr r" "1 \<notin> set r"
    by auto
  with b show ?thesis by blast
qed

text \<open>
  Claim C7. Let \<open>SS1\<close>, \<open>SS2\<close> be two permutations of the non-degenerate indices, both
  ordered by ascending start, and \<open>SE1\<close>, \<open>SE2\<close> two permutations ordered by ascending
  end. Then the rest of \<open>Build\<close> returns the same result (the same tables, or the same
  failed assertion) for \<open>SS1\<close>, \<open>SE1\<close> as for \<open>SS2\<close>, \<open>SE2\<close>, and this is the result of
  \<open>Build\<close>: it depends on the input arrays alone, not on how the sort orders equal keys.
\<close>

theorem C7_tie_order_independent:
  assumes "N \<le> length S" and "N \<le> length E"
    and "mset SS1 = mset (nondegen S E N)" and "sorted (map (\<lambda>i. S ! i) SS1)"
    and "mset SE1 = mset (nondegen S E N)" and "sorted (map (\<lambda>i. E ! i) SE1)"
    and "mset SS2 = mset (nondegen S E N)" and "sorted (map (\<lambda>i. S ! i) SS2)"
    and "mset SE2 = mset (nondegen S E N)" and "sorted (map (\<lambda>i. E ! i) SE2)"
  shows "Build_tables MINV MAXV S E SS1 SE1 = Build_tables MINV MAXV S E SS2 SE2 \<and>
         (0 < N \<longrightarrow> Build MINV MAXV rm (Some S) (Some E) N = Build_tables MINV MAXV S E SS1 SE1)"
proof -
  define SS where "SS = sort_key (\<lambda>i. S ! i) (nondegen S E N)"
  define SE where "SE = sort_key (\<lambda>i. E ! i) (nondegen S E N)"
  have len: "length SE = length SS"
    and m: "mset SS = mset (nondegen S E N)" "mset SE = mset (nondegen S E N)"
    and so: "sorted (map (\<lambda>i. S ! i) SS)" "sorted (map (\<lambda>i. E ! i) SE)"
    by (simp_all add: SS_def SE_def)
  have 1: "Build_tables MINV MAXV S E SS1 SE1 = Build_tables MINV MAXV S E SS SE"
    using len _ _ so assms(4,6) by (rule Build_tables_tie_independent) (simp_all add: m assms)
  have 2: "Build_tables MINV MAXV S E SS2 SE2 = Build_tables MINV MAXV S E SS SE"
    using len _ _ so assms(8,10) by (rule Build_tables_tie_independent) (simp_all add: m assms)
  show ?thesis
    using 1 2 by (simp add: Build_Some SS_def SE_def)
qed

theorem C7_witness:
  "Build_tables INT_MIN INT_MAX [1, 1] [3, 3] [0, 1] [1, 0] =
     Build_tables INT_MIN INT_MAX [1, 1] [3, 3] [1, 0] [0, 1] \<and>
   Build INT_MIN INT_MAX fresh (Some [1, 1]) (Some [3, 3]) 2 =
     Build_tables INT_MIN INT_MAX [1, 1] [3, 3] [0, 1] [1, 0]"
proof -
  have n: "nondegen [1, 1 :: int] [3, 3] 2 = [0, 1]"
    by code_simp
  have p: "mset [1, 0 :: nat] = mset [0, 1]"
    by simp
  from C7_tie_order_independent [of 2 "[1, 1]" "[3, 3]" "[0, 1]" "[1, 0]" "[1, 0]" "[0, 1]"
      INT_MIN INT_MAX fresh]
  show ?thesis
    by (simp add: n p)
qed

text \<open>
  Claim C8. No \<^verbatim>\<open>assert(X.capacity() > X.size())\<close> of \<open>PUSHBACK\<close> fails during \<open>Build\<close>,
  for any input: not for \<open>SS\<close> and \<open>SE\<close> (reserved for \<open>N\<close>), not for \<open>Tab\<close> and \<open>IList\<close>
  (reserved for \<open>2 * NF + 2\<close>). When \<open>Build\<close> has run (\<open>N > 0\<close>) and returns, both tables
  hold at most \<open>2 * NF + 2\<close> entries, \<open>NF\<close> the number of non-degenerate intervals; and
  \<open>Build\<close> returns for every input with \<open>start[i] <= end[i]\<close> for all \<open>i\<close>.
\<close>

theorem C8_capacity_assertions_hold:
  assumes "N \<le> length S" and "N \<le> length E"
  shows "Build MINV MAXV rm (Some S) (Some E) N \<noteq> Inl CapacityAssert \<and>
         (\<forall>rm'. 0 < N \<and> Build MINV MAXV rm (Some S) (Some E) N = Inr rm' \<longrightarrow>
            length (Tab rm') \<le> 2 * length (nondegen S E N) + 2 \<and>
            length (IList rm') \<le> 2 * length (nondegen S E N) + 2) \<and>
         ((\<forall>i<N. S ! i \<le> E ! i) \<and> MINV < MAXV \<longrightarrow>
            (\<exists>rm'. Build MINV MAXV rm (Some S) (Some E) N = Inr rm'))"
proof (intro conjI)
  show "Build MINV MAXV rm (Some S) (Some E) N \<noteq> Inl CapacityAssert"
    by (rule Build_no_capacity_error)
  show "\<forall>rm'. 0 < N \<and> Build MINV MAXV rm (Some S) (Some E) N = Inr rm' \<longrightarrow>
            length (Tab rm') \<le> 2 * length (nondegen S E N) + 2 \<and>
            length (IList rm') \<le> 2 * length (nondegen S E N) + 2"
  proof (rule allI, rule impI)
    fix rm' assume a: "0 < N \<and> Build MINV MAXV rm (Some S) (Some E) N = Inr rm'"
    then have b: "Build MINV MAXV rm (Some S) (Some E) N = Inr rm'" and N: "0 < N"
      by simp_all
    from Build_gen(1,2) [OF b N]
    show "length (Tab rm') \<le> 2 * length (nondegen S E N) + 2 \<and>
          length (IList rm') \<le> 2 * length (nondegen S E N) + 2"
      by simp
  qed
  show "(\<forall>i<N. S ! i \<le> E ! i) \<and> MINV < MAXV \<longrightarrow>
            (\<exists>rm'. Build MINV MAXV rm (Some S) (Some E) N = Inr rm')"
  proof
    assume "(\<forall>i<N. S ! i \<le> E ! i) \<and> MINV < MAXV"
    then have wf: "\<forall>i<N. S ! i \<le> E ! i" and mm: "MINV < MAXV" by simp_all
    show "\<exists>rm'. Build MINV MAXV rm (Some S) (Some E) N = Inr rm'"
    proof (cases "0 < N")
      case True
      from Build_wf [OF wf mm True, of rm] show ?thesis by blast
    next
      case False
      then show ?thesis by (simp add: Build_early_return)
    qed
  qed
qed

theorem C8_witness:
  "Build INT_MIN INT_MAX fresh (Some [0, 5, 10, 15]) (Some [8, 7, 13, 25]) 4 \<noteq> Inl CapacityAssert \<and>
   (\<exists>rm'. Build INT_MIN INT_MAX fresh (Some [0, 5, 10, 15]) (Some [8, 7, 13, 25]) 4 = Inr rm' \<and>
      length (Tab rm') \<le> 2 * length (nondegen [0, 5, 10, 15 :: int] [8, 7, 13, 25] 4) + 2 \<and>
      length (nondegen [0, 5, 10, 15 :: int] [8, 7, 13, 25] 4) = 4)"
proof -
  have n: "length (nondegen [0, 5, 10, 15 :: int] [8, 7, 13, 25] 4) = 4"
    by code_simp
  note t = C8_capacity_assertions_hold [of 4 "[0, 5, 10, 15]" "[8, 7, 13, 25]" INT_MIN INT_MAX fresh]
  from t have 1: "Build INT_MIN INT_MAX fresh (Some [0, 5, 10, 15]) (Some [8, 7, 13, 25]) 4 \<noteq> Inl CapacityAssert"
    by simp
  from t readme_wf INT_MIN_less_MAX obtain rm' where
    b: "Build INT_MIN INT_MAX fresh (Some [0, 5, 10, 15]) (Some [8, 7, 13, 25]) 4 = Inr rm'"
    by auto
  from t b have "length (Tab rm') \<le> 2 * length (nondegen [0, 5, 10, 15 :: int] [8, 7, 13, 25] 4) + 2"
    by simp
  with 1 n b show ?thesis
    by blast
qed

text \<open>
  Claim C9. On an instance obtained from a default-constructed one by any sequence of
  \<open>Build\<close> calls, every vector that \<open>Query\<close> returns is strictly ascending.
\<close>

theorem C9_query_results_ascending:
  assumes "list_all call_ok calls"
    and b: "Builds MINV MAXV fresh calls = Inr rm"
    and q: "Query rm p = Inr r"
  shows "sorted_wrt (<) r"
proof -
  from built_inv_Builds [OF b built_inv_fresh]
  have "\<forall>A\<in>set (IList rm). sorted_wrt (<) A"
    by (simp add: built_inv_def)
  with Query_result [OF q] show ?thesis
    by (auto simp: Empty_def)
qed

theorem C9_witness:
  "\<exists>rm. Builds INT_MIN INT_MAX fresh [(Some [0, 5, 10, 15], Some [8, 7, 13, 25], 4), (None, None, 0)]
           = Inr rm \<and>
     Query rm 6 = Inr [0, 1] \<and> sorted_wrt (<) [0, 1 :: nat]"
proof -
  have q: "Query \<lparr>Tab = [INT_MIN, 0, 5, 7, 8, 10, 13, 15, 25, INT_MAX],
          IList = [[], [0], [0, 1], [0], [], [2], [], [3], [], []]\<rparr> 6 = Inr [0, 1]"
    by (simp add: Query_def INT_MIN_def)
  have "list_all call_ok [(Some [0, 5, 10, 15 :: int], Some [8, 7, 13, 25], 4), (None, None, 0)]"
    by simp
  from C9_query_results_ascending [OF this Builds_readme_tables q] Builds_readme_tables q
  show ?thesis by blast
qed

text \<open>
  Claim C10. On a default-constructed instance \<open>Query\<close> returns \<open>Empty\<close>. On an instance
  obtained from it by any sequence of \<open>Build\<close> calls, for every point \<open>p\<close> of the domain
  (\<open>MINV <= p\<close>): \<open>Query(p)\<close> returns a vector (no index is out of bounds), the two
  tables have the same length, the first breakpoint, when there is one, is at or below
  \<open>p\<close>, and a position \<open>k\<close> of the table whose element is above \<open>p\<close>, the one that
  \<open>lower_bound\<close> finds among them, is not the first one, so that \<open>IList[k - 1]\<close> exists.
\<close>

theorem C10_query_in_bounds:
  assumes "list_all call_ok calls"
    and b: "Builds MINV MAXV fresh calls = Inr rm"
    and lo: "MINV \<le> p"
  shows "Query fresh p = Inr Empty \<and> (\<exists>r. Query rm p = Inr r) \<and>
         length (IList rm) = length (Tab rm) \<and>
         (Tab rm \<noteq> [] \<longrightarrow> Tab rm ! 0 \<le> p) \<and>
         (\<forall>k. k < length (Tab rm) \<and> p < Tab rm ! k \<longrightarrow> 0 < k \<and> k - 1 < length (IList rm))"
proof -
  from built_inv_Builds [OF b built_inv_fresh]
  have len: "length (IList rm) = length (Tab rm)" and h: "Tab rm \<noteq> [] \<longrightarrow> hd (Tab rm) \<le> p"
    using lo by (auto simp: built_inv_def)
  from h have h0: "Tab rm \<noteq> [] \<longrightarrow> Tab rm ! 0 \<le> p"
    by (simp add: hd_conv_nth)
  have "0 < k \<and> k - 1 < length (IList rm)" if "k < length (Tab rm) \<and> p < Tab rm ! k" for k
  proof -
    from that have "Tab rm \<noteq> []" by auto
    with h0 have "Tab rm ! 0 \<le> p" by simp
    have "k \<noteq> 0"
    proof
      assume "k = 0"
      with that have "p < Tab rm ! 0" by simp
      with \<open>Tab rm ! 0 \<le> p\<close> show False by (simp add: not_le [symmetric])
    qed
    moreover from that have "k < length (Tab rm)" by simp
    ultimately show ?thesis using len by arith
  qed
  with Query_in_bounds [OF len h] Query_fresh [of p] len h0 show ?thesis
    by blast
qed

theorem C10_witness:
  "\<exists>rm. Builds INT_MIN INT_MAX fresh [(Some [0, 5, 10, 15], Some [8, 7, 13, 25], 4), (None, None, 0)]
           = Inr rm \<and>
     (\<exists>r. Query rm (- 1) = Inr r) \<and> lower_bound (Tab rm) (- 1) = 1 \<and> - 1 < Tab rm ! 1 \<and>
     Tab rm ! 0 \<le> - 1"
proof -
  have ok: "list_all call_ok [(Some [0, 5, 10, 15 :: int], Some [8, 7, 13, 25], 4), (None, None, 0)]"
    by simp
  have lo: "INT_MIN \<le> - 1" by (simp add: INT_MIN_def)
  have l: "lower_bound [INT_MIN, 0, 5, 7, 8, 10, 13, 15, 25, INT_MAX] (- 1) = 1"
    by (simp add: INT_MIN_def)
  from C10_query_in_bounds [OF ok Builds_readme_tables lo] l Builds_readme_tables
  show ?thesis by simp
qed

end
